theory Spec2Isabelle
  imports
    Complex_Main
    "HOL-Library.Multiset"
    "HOL-Library.Sublist"
    "HOL-Library.Char_ord"
    "HOL-Library.List_Lexorder"
begin

chapter \<open>Power Automate Log Viewer: ingestion and analytics\<close>

text \<open>
  A shallow embedding of the log engine of the viewer: \<^verbatim>\<open>parseLogFile\<close> (utils),
  \<^verbatim>\<open>readFile\<close> and \<^verbatim>\<open>processFiles\<close> (FileUpload), the time-range filter of Dashboard,
  \<^verbatim>\<open>uniqueComponents\<close>, \<^verbatim>\<open>uniqueLevels\<close> and \<^verbatim>\<open>filteredLogs\<close> (LogTable), and
  \<^verbatim>\<open>volumeData\<close> and \<^verbatim>\<open>perfData\<close> (LogCharts).

  The interfaces of types.ts are erased when the program runs: an entry of a dataset is
  whatever object \<^verbatim>\<open>JSON.parse\<close> returned for an accepted line. All components are
  therefore modelled on JSON values, and an operation that throws for some value has
  that exception as a result.

  A text is a list of code units; the model covers the code units below 256, one
  \<open>char\<close> each.
\<close>

section \<open>Exceptions\<close>

datatype error = SyntaxError | TypeError

definition bindE :: "error + 'a \<Rightarrow> ('a \<Rightarrow> error + 'b) \<Rightarrow> error + 'b" where
  "bindE m f = (case m of Inl e \<Rightarrow> Inl e | Inr x \<Rightarrow> f x)"

text \<open>\<^verbatim>\<open>xs.map(f)\<close> and \<^verbatim>\<open>xs.filter(p)\<close> call back in index order; the first exception ends them.\<close>

fun mapE :: "('a \<Rightarrow> error + 'b) \<Rightarrow> 'a list \<Rightarrow> error + 'b list" where
  "mapE f [] = Inr []"
| "mapE f (x # xs) = bindE (f x) (\<lambda>y. bindE (mapE f xs) (\<lambda>ys. Inr (y # ys)))"

fun filterE :: "('a \<Rightarrow> error + bool) \<Rightarrow> 'a list \<Rightarrow> error + 'a list" where
  "filterE p [] = Inr []"
| "filterE p (x # xs) =
     bindE (p x) (\<lambda>keep. bindE (filterE p xs) (\<lambda>ys. Inr (if keep then x # ys else ys)))"

text \<open>\<^verbatim>\<open>xs.forEach(f)\<close> over a state that the callback updates.\<close>

fun forEachE :: "('s \<Rightarrow> 'a \<Rightarrow> error + 's) \<Rightarrow> 's \<Rightarrow> 'a list \<Rightarrow> error + 's" where
  "forEachE f s [] = Inr s"
| "forEachE f s (x # xs) = bindE (f s x) (\<lambda>s'. forEachE f s' xs)"

section \<open>Numbers\<close>

text \<open>
  Every number the modelled code computes with is a time value of a \<^verbatim>\<open>Date\<close>, a
  difference of two, a bucket key, or NaN. Time values are integers of magnitude at most
  8.64e15, so they, their differences and \<^verbatim>\<open>Math.floor(ts / w) * w\<close> for the three bucket
  widths are computed exactly in double precision and agree with integer arithmetic.
  \<open>None\<close> is NaN; every comparison with NaN is false.
\<close>

type_synonym jsnum = "int option"

fun num_sub :: "jsnum \<Rightarrow> jsnum \<Rightarrow> jsnum" where
  "num_sub (Some a) (Some b) = Some (a - b)"
| "num_sub _ _ = None"

fun num_lt :: "jsnum \<Rightarrow> jsnum \<Rightarrow> bool" where
  "num_lt (Some a) (Some b) = (a < b)"
| "num_lt _ _ = False"

fun num_le :: "jsnum \<Rightarrow> jsnum \<Rightarrow> bool" where
  "num_le (Some a) (Some b) = (a \<le> b)"
| "num_le _ _ = False"

definition num_add :: "jsnum \<Rightarrow> int \<Rightarrow> jsnum" where
  "num_add a b = (case a of None \<Rightarrow> None | Some x \<Rightarrow> Some (x + b))"

section \<open>Array.prototype.sort\<close>

text \<open>
  \<^verbatim>\<open>xs.sort(comparefn)\<close>: an element goes behind another when the comparator's value for
  the pair is positive; a NaN value counts as 0. An exception of the comparator ends the
  sort and leaves it. An array of fewer than two elements is returned without a call of
  the comparator; in a longer one every element takes part in some comparison.

  For a consistent comparator the language fixes the result: sorted, and stable. The
  model is that stable sort, by insertion. For an inconsistent comparator (one that
  returns NaN against some elements only) the order is left to the engine; the model then
  yields one of the possible orders.
\<close>

definition positive :: "jsnum \<Rightarrow> bool" where
  "positive v = (case v of None \<Rightarrow> False | Some d \<Rightarrow> 0 < d)"

fun insertSorted ::
  "('a \<Rightarrow> 'a \<Rightarrow> error + jsnum) \<Rightarrow> 'a \<Rightarrow> 'a list \<Rightarrow> error + 'a list" where
  "insertSorted comparefn x [] = Inr [x]"
| "insertSorted comparefn x (y # ys) =
     bindE (comparefn x y)
       (\<lambda>v. if positive v
            then bindE (insertSorted comparefn x ys) (\<lambda>zs. Inr (y # zs))
            else Inr (x # y # ys))"

fun array_sort :: "('a \<Rightarrow> 'a \<Rightarrow> error + jsnum) \<Rightarrow> 'a list \<Rightarrow> error + 'a list" where
  "array_sort comparefn [] = Inr []"
| "array_sort comparefn (x # xs) =
     bindE (array_sort comparefn xs) (\<lambda>ys. insertSorted comparefn x ys)"

text \<open>
  A sequence is chronological when each element's time value is at most the next one's.
  With NaN on either side of a pair the comparison is false.
\<close>

fun chronological :: "jsnum list \<Rightarrow> bool" where
  "chronological (a # b # rest) = (num_le a b \<and> chronological (b # rest))"
| "chronological _ = True"

section \<open>JSON values and the platform\<close>

text \<open>
  The values \<^verbatim>\<open>JSON.parse\<close> returns. An object is the list of its members in the order
  of the text; a later member of the same name replaces an earlier one. Numbers are
  rationals, which include every finite double.
\<close>

datatype json =
    JNull
  | JBool bool
  | JNum rat
  | JStr string
  | JArr "json list"
  | JObj "(string \<times> json) list"

text \<open>
  An entry of a dataset is an object: only an object has the three fields that the parser
  requires. It is represented by its members. Different positions of a dataset hold
  different objects, each with values of its own.
\<close>

type_synonym entry = "(string \<times> json) list"

text \<open>
  The platform functions the code calls are parameters of the model:
  \<^item> \<open>JSON_parse\<close> is \<^verbatim>\<open>JSON.parse\<close>; \<open>None\<close> is a thrown SyntaxError;
  \<^item> \<open>Date_getTime v\<close> is \<^verbatim>\<open>new Date(v).getTime()\<close>: a time value, NaN for an invalid
    date, or the TypeError that the conversion of an object to a primitive value throws
    (for an object with a member \<^verbatim>\<open>toString\<close>, say);
  \<^item> \<open>ToString\<close> is the conversion of a value to a string, as the default comparator of
    \<^verbatim>\<open>sort\<close> applies it; it throws for the same objects;
  \<^item> \<open>toLocaleString\<close> is the label \<^verbatim>\<open>new Date(n).toLocaleString(undefined, {...})\<close> with
    the options the charts pass.
  Every theorem below holds for every platform.
\<close>

record platform =
  JSON_parse :: "string \<Rightarrow> json option"
  Date_getTime :: "json \<Rightarrow> error + jsnum"
  ToString :: "json \<Rightarrow> error + string"
  toLocaleString :: "jsnum \<Rightarrow> string"

text \<open>
  \<^verbatim>\<open>e.k\<close> for an entry and \<^verbatim>\<open>v.k\<close> for a value that is not \<^verbatim>\<open>null\<close>, for the property
  names the code reads; \<open>None\<close> is \<^verbatim>\<open>undefined\<close>. Numbers, strings, booleans and arrays
  have none of these properties. \<^verbatim>\<open>v?.k\<close> is \<^verbatim>\<open>undefined\<close> also when \<^verbatim>\<open>v\<close> is \<^verbatim>\<open>null\<close> or
  \<^verbatim>\<open>undefined\<close>.
\<close>

definition property :: "entry \<Rightarrow> string \<Rightarrow> json option" where
  "property e k = map_of (rev e) k"

fun member_of :: "json \<Rightarrow> string \<Rightarrow> json option" where
  "member_of (JObj kvs) k = property kvs k"
| "member_of _ k = None"

definition optional :: "json option \<Rightarrow> string \<Rightarrow> json option" where
  "optional v k = (case v of None \<Rightarrow> None | Some JNull \<Rightarrow> None | Some x \<Rightarrow> member_of x k)"

text \<open>
  Truthiness: \<^verbatim>\<open>null\<close>, \<^verbatim>\<open>false\<close>, the number zero and the empty string are falsy, and
  so is \<^verbatim>\<open>undefined\<close>; every other value is truthy, the empty array and the empty object
  too.
\<close>

fun truthy :: "json \<Rightarrow> bool" where
  "truthy JNull = False"
| "truthy (JBool b) = b"
| "truthy (JNum n) = (n \<noteq> 0)"
| "truthy (JStr s) = (s \<noteq> [])"
| "truthy (JArr vs) = True"
| "truthy (JObj kvs) = True"

definition truthyOpt :: "json option \<Rightarrow> bool" where
  "truthyOpt v = (case v of None \<Rightarrow> False | Some x \<Rightarrow> truthy x)"

section \<open>utils: parseLogFile\<close>

text \<open>\<^verbatim>\<open>content.split('\n')\<close>: the pieces between line feeds; never an empty list.\<close>

fun split_lines :: "string \<Rightarrow> string list" where
  "split_lines [] = [[]]"
| "split_lines (c # cs) =
     (if c = CHR 0x0A then [] # split_lines cs
      else (case split_lines cs of
              [] \<Rightarrow> [[c]]
            | l # ls \<Rightarrow> (c # l) # ls))"

text \<open>
  \<^verbatim>\<open>line.trim()\<close> removes white space and line terminators from both ends. Below 256
  these are tab, line feed, vertical tab, form feed, carriage return, space and the
  no-break space.
\<close>

definition isWhiteSpace :: "char \<Rightarrow> bool" where
  "isWhiteSpace c =
     (c = CHR 0x09 \<or> c = CHR 0x0A \<or> c = CHR 0x0B \<or> c = CHR 0x0C \<or> c = CHR 0x0D
      \<or> c = CHR 0x20 \<or> c = CHR 0xA0)"

definition trim :: "string \<Rightarrow> string" where
  "trim s = rev (dropWhile isWhiteSpace (rev (dropWhile isWhiteSpace s)))"

text \<open>
  The body of the loop over the lines: \<open>Some\<close> is the record pushed to \<^verbatim>\<open>validLogs\<close>,
  \<open>None\<close> a skipped line. A blank line is skipped before decoding. An exception inside
  \<^verbatim>\<open>try\<close> is caught and the line skipped: the SyntaxError of \<^verbatim>\<open>JSON.parse\<close>, and the
  TypeError of reading \<^verbatim>\<open>parsed.eventTimestamp\<close> when the line is the literal \<^verbatim>\<open>null\<close>.
  A value that is not an object has none of the three fields.
\<close>

definition parseLine :: "platform \<Rightarrow> string \<Rightarrow> entry option" where
  "parseLine pf line =
     (let trimmed = trim line in
      if trimmed = [] then None
      else (case JSON_parse pf trimmed of
              None \<Rightarrow> None
            | Some parsed \<Rightarrow>
                (case parsed of
                   JNull \<Rightarrow> None
                 | JObj kvs \<Rightarrow>
                     (if truthyOpt (property kvs ''eventTimestamp'')
                         \<and> truthyOpt (property kvs ''component'')
                         \<and> truthyOpt (property kvs ''traceLevel'')
                      then Some kvs else None)
                 | _ \<Rightarrow> None)))"

text \<open>
  \<^verbatim>\<open>new Date(a.eventTimestamp).getTime()\<close>; a missing field makes an invalid date.
\<close>

definition entryTime :: "platform \<Rightarrow> entry \<Rightarrow> error + jsnum" where
  "entryTime pf a =
     (case property a ''eventTimestamp'' of None \<Rightarrow> Inr None | Some v \<Rightarrow> Date_getTime pf v)"

definition byTimestamp :: "platform \<Rightarrow> entry \<Rightarrow> entry \<Rightarrow> error + jsnum" where
  "byTimestamp pf a b =
     bindE (entryTime pf a) (\<lambda>ta. bindE (entryTime pf b) (\<lambda>tb. Inr (num_sub ta tb)))"

definition validLogs :: "platform \<Rightarrow> string \<Rightarrow> entry list" where
  "validLogs pf content = List.map_filter (parseLine pf) (split_lines content)"

text \<open>The sort stands outside the \<^verbatim>\<open>try\<close> of the loop, so its exception leaves the function.\<close>

definition parseLogFile :: "platform \<Rightarrow> string \<Rightarrow> error + entry list" where
  "parseLogFile pf content = array_sort (byTimestamp pf) (validLogs pf content)"

section \<open>FileUpload: readFile and processFiles\<close>

text \<open>
  A selected file: its name and what the FileReader delivers, \<open>None\<close> when the reader
  fires \<^verbatim>\<open>onerror\<close>.
\<close>

record File =
  name :: string
  readAsText :: "string option"

datatype 'a promise = Resolved 'a | Rejected string

text \<open>
  \<^verbatim>\<open>readFile\<close>: the promise resolves with the parsed logs, resolves with no logs when
  \<^verbatim>\<open>parseLogFile\<close> throws, and rejects when the file cannot be read.
\<close>

definition readFile :: "platform \<Rightarrow> File \<Rightarrow> entry list promise" where
  "readFile pf file =
     (case readAsText file of
        None \<Rightarrow> Rejected (''Error reading file: '' @ name file)
      | Some content \<Rightarrow>
          (case parseLogFile pf content of
             Inr logs \<Rightarrow> Resolved logs
           | Inl err \<Rightarrow> Resolved []))"

text \<open>
  \<^verbatim>\<open>Promise.all\<close>: the results in the order of the inputs, whatever the order of
  completion, or a rejection when one promise rejects. The reason of the rejection is
  only logged.
\<close>

fun promise_all :: "'a promise list \<Rightarrow> 'a list promise" where
  "promise_all [] = Resolved []"
| "promise_all (Rejected e # ps) = Rejected e"
| "promise_all (Resolved v # ps) =
     (case promise_all ps of
        Rejected e \<Rightarrow> Rejected e
      | Resolved vs \<Rightarrow> Resolved (v # vs))"

text \<open>The pair \<open>(name, logs)\<close> is the object \<^verbatim>\<open>{ name: file.name, logs }\<close>.\<close>

definition fileResult :: "platform \<Rightarrow> File \<Rightarrow> (string \<times> entry list) promise" where
  "fileResult pf file =
     (case readFile pf file of
        Rejected e \<Rightarrow> Rejected e
      | Resolved logs \<Rightarrow> Resolved (name file, logs))"

text \<open>
  The state the ingestion writes: \<^verbatim>\<open>isLoading\<close> and \<^verbatim>\<open>error\<close> of FileUpload, and
  \<^verbatim>\<open>logs\<close>, \<^verbatim>\<open>fileName\<close> and \<^verbatim>\<open>hasData\<close> of App, which hold the published dataset.
\<close>

record ui =
  upload_isLoading :: bool
  upload_error :: "string option"
  app_logs :: "entry list"
  app_fileName :: string
  app_hasData :: bool

definition handleDataLoaded :: "entry list \<Rightarrow> string \<Rightarrow> ui \<Rightarrow> ui" where
  "handleDataLoaded parsedLogs nm st =
     st\<lparr>app_logs := parsedLogs, app_fileName := nm, app_hasData := True\<rparr>"

text \<open>The decimal digits of a length, as a template literal prints it.\<close>

fun showNat :: "nat \<Rightarrow> string" where
  "showNat n =
     (if n < 10 then [char_of (48 + n)]
      else showNat (n div 10) @ [char_of (48 + n mod 10)])"

definition noValidLogs :: string where
  "noValidLogs =
     ''No valid Power Automate Desktop logs found. Please check your file selection.''"

definition failedToProcess :: string where
  "failedToProcess =
     ''Failed to process files. Please ensure they contain valid line-delimited JSON.''"

definition datasetName :: "(string \<times> entry list) list \<Rightarrow> string" where
  "datasetName validFileResults =
     (case validFileResults of
        [res] \<Rightarrow> fst res
      | _ \<Rightarrow> showNat (length validFileResults) @ '' Log Files Merged'')"

text \<open>
  \<^verbatim>\<open>processFiles\<close>. A rejected read and an exception of the master sort both end in the
  \<^verbatim>\<open>catch\<close> block. The \<^verbatim>\<open>finally\<close> block runs on every path, also on the early return
  for an empty file list.
\<close>

definition processFiles :: "platform \<Rightarrow> File list \<Rightarrow> ui \<Rightarrow> ui" where
  "processFiles pf files st =
     (let st1 = st\<lparr>upload_isLoading := True, upload_error := None\<rparr>;
          st2 =
            (if length files = 0 then st1
             else (case promise_all (map (fileResult pf) files) of
                     Rejected err \<Rightarrow> st1\<lparr>upload_error := Some failedToProcess\<rparr>
                   | Resolved results \<Rightarrow>
                       (let validFileResults = filter (\<lambda>res. length (snd res) > 0) results;
                            allLogs = concat (map snd validFileResults)
                        in if length allLogs = 0
                           then st1\<lparr>upload_error := Some noValidLogs\<rparr>
                           else (case array_sort (byTimestamp pf) allLogs of
                                   Inl err \<Rightarrow> st1\<lparr>upload_error := Some failedToProcess\<rparr>
                                 | Inr sortedLogs \<Rightarrow>
                                     handleDataLoaded sortedLogs
                                       (datasetName validFileResults) st1))))
      in st2\<lparr>upload_isLoading := False\<rparr>)"

section \<open>App: the published dataset\<close>

text \<open>
  The initial values of the \<^verbatim>\<open>useState\<close> hooks. App shows FileUpload while \<^verbatim>\<open>hasData\<close>
  is false, and otherwise passes \<^verbatim>\<open>logs\<close> and \<^verbatim>\<open>fileName\<close> to Dashboard: these two are
  the dataset and its name. An ingestion therefore always starts from a state without
  data.
\<close>

definition initialState :: ui where
  "initialState =
     \<lparr>upload_isLoading = False, upload_error = None,
      app_logs = [], app_fileName = [], app_hasData = False\<rparr>"

definition dashboardProps :: "ui \<Rightarrow> (entry list \<times> string) option" where
  "dashboardProps st = (if \<not> app_hasData st then None else Some (app_logs st, app_fileName st))"

section \<open>Dashboard: the time-range filter\<close>

text \<open>A range is set from the start and the end of buckets, which are numbers or NaN.\<close>

record TimeRange =
  range_start :: jsnum
  range_end :: jsnum

definition inRange :: "platform \<Rightarrow> TimeRange \<Rightarrow> entry \<Rightarrow> error + bool" where
  "inRange pf r entry =
     bindE (entryTime pf entry) (\<lambda>t. Inr (num_le (range_start r) t \<and> num_le t (range_end r)))"

definition dashboardFilteredLogs ::
  "platform \<Rightarrow> entry list \<Rightarrow> TimeRange option \<Rightarrow> error + entry list" where
  "dashboardFilteredLogs pf logs timeRange =
     (case timeRange of
        None \<Rightarrow> Inr logs
      | Some r \<Rightarrow> filterE (inRange pf r) logs)"

section \<open>LogTable: choices and filter\<close>

text \<open>
  \<^verbatim>\<open>Array.from(new Set(xs))\<close>: the first occurrence of each value, in order of
  appearance. A set holds a primitive value once and \<^verbatim>\<open>undefined\<close> once; an array or an
  object is the same as itself only, and the values at different positions are different
  objects.
\<close>

fun primitive :: "json \<Rightarrow> bool" where
  "primitive (JArr vs) = False"
| "primitive (JObj kvs) = False"
| "primitive _ = True"

fun sameValueZero :: "json option \<Rightarrow> json option \<Rightarrow> bool" where
  "sameValueZero None None = True"
| "sameValueZero (Some a) (Some b) = (primitive a \<and> a = b)"
| "sameValueZero _ _ = False"

definition setAdd :: "json option list \<Rightarrow> json option \<Rightarrow> json option list" where
  "setAdd s v = (if list_ex (\<lambda>u. sameValueZero u v) s then s else s @ [v])"

definition setValues :: "json option list \<Rightarrow> json option list" where
  "setValues xs = foldl setAdd [] xs"

text \<open>
  \<^verbatim>\<open>.sort()\<close> without a comparator: the \<^verbatim>\<open>undefined\<close> elements go to the end, uncompared;
  the others are ordered by their strings, compared by code units, a proper prefix first.
  The string of a string is itself.
\<close>

definition stringCompare :: "string \<Rightarrow> string \<Rightarrow> jsnum" where
  "stringCompare a b = Some (if a < b then -1 else if b < a then 1 else 0)"

definition stringOf :: "platform \<Rightarrow> json \<Rightarrow> error + string" where
  "stringOf pf v = (case v of JStr s \<Rightarrow> Inr s | _ \<Rightarrow> ToString pf v)"

definition defaultCompare :: "platform \<Rightarrow> json \<Rightarrow> json \<Rightarrow> error + jsnum" where
  "defaultCompare pf a b =
     bindE (stringOf pf a) (\<lambda>sa. bindE (stringOf pf b) (\<lambda>sb. Inr (stringCompare sa sb)))"

definition sortDefault :: "platform \<Rightarrow> json option list \<Rightarrow> error + json option list" where
  "sortDefault pf xs =
     bindE (array_sort (defaultCompare pf) (List.map_filter (\<lambda>v. v) xs))
       (\<lambda>ys. Inr (map Some ys @ filter (\<lambda>v. v = None) xs))"

definition uniqueComponents :: "platform \<Rightarrow> entry list \<Rightarrow> error + json option list" where
  "uniqueComponents pf logs =
     sortDefault pf (setValues (map (\<lambda>l. property l ''component'') logs))"

definition uniqueLevels :: "platform \<Rightarrow> entry list \<Rightarrow> error + json option list" where
  "uniqueLevels pf logs =
     sortDefault pf (setValues (map (\<lambda>l. property l ''traceLevel'') logs))"

text \<open>
  \<^verbatim>\<open>toLowerCase\<close>: below 256 the upper-case letters are A to Z and the letters from
  0xC0 to 0xDE other than the multiplication sign 0xD7; each has its lower-case letter
  32 places on.
\<close>

definition isUpper :: "char \<Rightarrow> bool" where
  "isUpper c =
     ((CHR ''A'' \<le> c \<and> c \<le> CHR ''Z'')
      \<or> (CHR 0xC0 \<le> c \<and> c \<le> CHR 0xDE \<and> c \<noteq> CHR 0xD7))"

definition toLowerChar :: "char \<Rightarrow> char" where
  "toLowerChar c = (if isUpper c then char_of (of_char c + (32::nat)) else c)"

definition toLowerCase :: "string \<Rightarrow> string" where
  "toLowerCase s = map toLowerChar s"

text \<open>\<^verbatim>\<open>s.includes(t)\<close>: \<open>t\<close> occurs in \<open>s\<close> as a contiguous piece.\<close>

fun str_includes :: "string \<Rightarrow> string \<Rightarrow> bool" where
  "str_includes [] t = (t = [])"
| "str_includes (c # cs) t = (prefix t (c # cs) \<or> str_includes cs t)"

text \<open>\<open>component'\<close> is the field \<^verbatim>\<open>component\<close> of the filter.\<close>

record LogFilter =
  search :: string
  level :: string
  component' :: string

text \<open>
  \<^verbatim>\<open>log.message.toLowerCase()\<close> is a string for a string and throws otherwise: the
  message is \<^verbatim>\<open>undefined\<close> or \<^verbatim>\<open>null\<close>, or a value without a method of that name.
  \<^verbatim>\<open>log.operationName?.toLowerCase()\<close> is \<^verbatim>\<open>undefined\<close> when the name is \<^verbatim>\<open>undefined\<close> or
  \<^verbatim>\<open>null\<close>. The disjunction stops at its first true part.
\<close>

definition lowerOf :: "json option \<Rightarrow> error + string" where
  "lowerOf v = (case v of Some (JStr s) \<Rightarrow> Inr (toLowerCase s) | _ \<Rightarrow> Inl TypeError)"

definition matchesSearch :: "LogFilter \<Rightarrow> entry \<Rightarrow> error + bool" where
  "matchesSearch filters entry =
     (if search filters = [] then Inr True
      else bindE (lowerOf (property entry ''message''))
             (\<lambda>m. if str_includes m (toLowerCase (search filters)) then Inr True
                  else (case property entry ''operationName'' of
                          None \<Rightarrow> Inr False
                        | Some JNull \<Rightarrow> Inr False
                        | Some v \<Rightarrow>
                            bindE (lowerOf (Some v))
                              (\<lambda>n. Inr (str_includes n (toLowerCase (search filters)))))))"

definition matchesLevel :: "LogFilter \<Rightarrow> entry \<Rightarrow> bool" where
  "matchesLevel filters entry =
     (level filters = [] \<or> property entry ''traceLevel'' = Some (JStr (level filters)))"

definition matchesComponent :: "LogFilter \<Rightarrow> entry \<Rightarrow> bool" where
  "matchesComponent filters entry =
     (component' filters = []
      \<or> property entry ''component'' = Some (JStr (component' filters)))"

definition filteredLogs :: "entry list \<Rightarrow> LogFilter \<Rightarrow> error + entry list" where
  "filteredLogs logs filters =
     filterE (\<lambda>entry. bindE (matchesSearch filters entry)
                (\<lambda>s. Inr (s \<and> matchesLevel filters entry \<and> matchesComponent filters entry)))
             logs"

text \<open>
  LogTable computes three things from its properties \<^verbatim>\<open>logs\<close> and \<^verbatim>\<open>filters\<close>: the
  choices of the component filter, the choices of the level filter, and the rows.
  Dashboard renders the table with \<^verbatim>\<open>logs={filteredLogs}\<close>, its own time-range filter of
  the dataset. An exception in any of them ends the rendering.
\<close>

record tableView =
  componentChoices :: "json option list"
  levelChoices :: "json option list"
  rows :: "entry list"

definition logTable :: "platform \<Rightarrow> entry list \<Rightarrow> LogFilter \<Rightarrow> error + tableView" where
  "logTable pf logs filters =
     bindE (uniqueComponents pf logs) (\<lambda>cs.
     bindE (uniqueLevels pf logs) (\<lambda>ls.
     bindE (filteredLogs logs filters) (\<lambda>rs.
       Inr \<lparr>componentChoices = cs, levelChoices = ls, rows = rs\<rparr>)))"

definition dashboardTable ::
  "platform \<Rightarrow> entry list \<Rightarrow> TimeRange option \<Rightarrow> LogFilter \<Rightarrow> error + tableView" where
  "dashboardTable pf logs timeRange filters =
     bindE (dashboardFilteredLogs pf logs timeRange) (\<lambda>shown. logTable pf shown filters)"

section \<open>LogCharts: volumeData\<close>

text \<open>\<open>count_b\<close> is the field \<^verbatim>\<open>count\<close> of a bucket.\<close>

record bucket =
  time :: string
  timestamp :: jsnum
  endTime :: jsnum
  count_b :: nat
  errors :: nat

text \<open>\<^verbatim>\<open>endTime - startTime\<close>, of the first and the last entry of a non-empty array.\<close>

definition durationMs :: "platform \<Rightarrow> entry list \<Rightarrow> error + jsnum" where
  "durationMs pf logs =
     bindE (entryTime pf (hd logs)) (\<lambda>startTime.
     bindE (entryTime pf (last logs)) (\<lambda>endTime'.
       Inr (num_sub endTime' startTime)))"

text \<open>The default of one minute stands when neither comparison holds, also for NaN.\<close>

definition bucketSizeMs :: "jsnum \<Rightarrow> int" where
  "bucketSizeMs d =
     (if num_lt d (Some 300000) then 1000
      else if num_lt d (Some 3600000) then 10000
      else 60000)"

text \<open>\<^verbatim>\<open>Math.floor(ts / bucketSizeMs) * bucketSizeMs\<close>; NaN stays NaN.\<close>

definition bucketKey :: "int \<Rightarrow> jsnum \<Rightarrow> jsnum" where
  "bucketKey width ts = (case ts of None \<Rightarrow> None | Some t \<Rightarrow> Some ((t div width) * width))"

text \<open>
  The object \<^verbatim>\<open>buckets\<close> is the list of its properties in order of creation. A
  property name is the string of the bucket key, and distinct keys have distinct
  strings, so the key itself stands for the name.
\<close>

type_synonym buckets = "(jsnum \<times> bucket) list"

definition modify :: "jsnum \<Rightarrow> (bucket \<Rightarrow> bucket) \<Rightarrow> buckets \<Rightarrow> buckets" where
  "modify k f bs = map (\<lambda>(k', b). if k' = k then (k', f b) else (k', b)) bs"

definition isError :: "entry \<Rightarrow> bool" where
  "isError entry =
     (property entry ''traceLevel'' = Some (JStr ''Error'')
      \<or> property entry ''traceLevel'' = Some (JStr ''Critical''))"

text \<open>The body of \<^verbatim>\<open>logs.forEach\<close>. A bucket, once created, is an object and so truthy.\<close>

definition addLog :: "platform \<Rightarrow> int \<Rightarrow> buckets \<Rightarrow> entry \<Rightarrow> error + buckets" where
  "addLog pf width bs entry =
     bindE (entryTime pf entry) (\<lambda>ts.
       let key = bucketKey width ts;
           bs1 = (if map_of bs key = None
                  then bs @ [(key, \<lparr>time = toLocaleString pf key, timestamp = key,
                                    endTime = num_add key width, count_b = 0, errors = 0\<rparr>)]
                  else bs);
           bs2 = modify key (\<lambda>b. b\<lparr>count_b := count_b b + 1\<rparr>) bs1
       in Inr (if isError entry then modify key (\<lambda>b. b\<lparr>errors := errors b + 1\<rparr>) bs2
               else bs2))"

text \<open>
  \<^verbatim>\<open>Object.values\<close>: the properties whose names are array indices (the integers from 0
  below 4294967295) come first, in ascending order, then the others in order of creation.
\<close>

definition isArrayIndex :: "jsnum \<Rightarrow> bool" where
  "isArrayIndex k = (case k of None \<Rightarrow> False | Some n \<Rightarrow> 0 \<le> n \<and> n < 4294967295)"

definition indexKey :: "jsnum \<times> bucket \<Rightarrow> int" where
  "indexKey p = (case fst p of None \<Rightarrow> 0 | Some n \<Rightarrow> n)"

definition object_values :: "buckets \<Rightarrow> bucket list" where
  "object_values bs =
     map snd (sort_key indexKey (filter (\<lambda>p. isArrayIndex (fst p)) bs)
              @ filter (\<lambda>p. \<not> isArrayIndex (fst p)) bs)"

definition byBucketStart :: "bucket \<Rightarrow> bucket \<Rightarrow> error + jsnum" where
  "byBucketStart a b = Inr (num_sub (timestamp a) (timestamp b))"

definition volumeData :: "platform \<Rightarrow> entry list \<Rightarrow> error + bucket list" where
  "volumeData pf logs =
     (if length logs = 0 then Inr []
      else bindE (durationMs pf logs) (\<lambda>d.
           bindE (forEachE (addLog pf (bucketSizeMs d)) [] logs) (\<lambda>bs.
             array_sort byBucketStart (object_values bs))))"

section \<open>LogCharts: perfData\<close>

text \<open>
  A metric is whatever value the log holds, or the number 0 when the value is missing or
  falsy.
\<close>

record MetricPoint =
  point_time :: string
  point_timestamp :: jsnum
  cpu :: json
  memory :: json
  processCpu :: json
  queueLength :: json

text \<open>
  The entries that carry metrics: \<^verbatim>\<open>eventData?.perfCounters\<close> is truthy, or one of the
  two fields of \<^verbatim>\<open>eventData?.machineInfo\<close> is not \<^verbatim>\<open>undefined\<close>.
\<close>

definition hasMetrics :: "entry \<Rightarrow> bool" where
  "hasMetrics l =
     (let ed = property l ''eventData'' in
      truthyOpt (optional ed ''perfCounters'')
      \<or> optional (optional ed ''machineInfo'') ''physicalFreeMemoryMB'' \<noteq> None
      \<or> optional (optional ed ''machineInfo'') ''cpuLoad'' \<noteq> None)"

text \<open>\<^verbatim>\<open>x || 0\<close>.\<close>

definition orZero :: "json option \<Rightarrow> json" where
  "orZero x = (case x of None \<Rightarrow> JNum 0 | Some v \<Rightarrow> if truthy v then v else JNum 0)"

text \<open>
  The callback of \<^verbatim>\<open>map\<close>. The branch on \<^verbatim>\<open>pc\<close> is the truthy one, so \<^verbatim>\<open>pc\<close> is not
  \<^verbatim>\<open>null\<close> there.
\<close>

definition metricPoint :: "platform \<Rightarrow> entry \<Rightarrow> error + MetricPoint" where
  "metricPoint pf entry =
     bindE (entryTime pf entry) (\<lambda>t.
       let ed = property entry ''eventData'';
           pc = optional ed ''perfCounters'';
           mi = optional ed ''machineInfo'';
           pinfo = optional ed ''processInfo''
       in Inr (if truthyOpt pc
               then \<lparr>point_time = toLocaleString pf t, point_timestamp = t,
                     cpu = orZero (optional pc ''totalCpuUsagePercent''),
                     memory = orZero (optional pc ''availableMemoryMB''),
                     processCpu = orZero (optional pc ''processCpuUsagePercent''),
                     queueLength = orZero (optional pc ''processorQueueLength'')\<rparr>
               else \<lparr>point_time = toLocaleString pf t, point_timestamp = t,
                     cpu = orZero (optional mi ''cpuLoad''),
                     memory = orZero (optional mi ''physicalFreeMemoryMB''),
                     processCpu = orZero (optional pinfo ''cpuLoad''),
                     queueLength = JNum 0\<rparr>))"

definition perfLogs :: "entry list \<Rightarrow> entry list" where
  "perfLogs effectiveLogs = filter hasMetrics effectiveLogs"

text \<open>\<^verbatim>\<open>Math.ceil(perfLogs.length / 500)\<close>.\<close>

definition step :: "entry list \<Rightarrow> nat" where
  "step effectiveLogs = nat \<lceil>(of_nat (length (perfLogs effectiveLogs)) :: rat) / 500\<rceil>"

text \<open>\<^verbatim>\<open>.filter((_, i) => i % step === 0)\<close>: the elements at the indices \<open>step\<close> divides.\<close>

definition sampled :: "entry list \<Rightarrow> entry list" where
  "sampled effectiveLogs =
     map snd (filter (\<lambda>p. fst p mod step effectiveLogs = 0)
                     (enumerate 0 (perfLogs effectiveLogs)))"

definition perfData :: "platform \<Rightarrow> entry list \<Rightarrow> error + MetricPoint list" where
  "perfData pf effectiveLogs =
     (if length (perfLogs effectiveLogs) = 0 then Inr []
      else mapE (metricPoint pf) (sampled effectiveLogs))"

section \<open>Notions of the specification\<close>

text \<open>
  The definitions of this section follow the words of the specification and of its
  claims, for comparison with the definitions taken from the code.
\<close>

subsection \<open>Records and sources\<close>

text \<open>
  A field of a decoded record is present and non-empty, in the plain sense of the words,
  when the record has the field and its value is not \<^verbatim>\<open>null\<close>, not the empty string, not
  the empty array and not the empty object. In that sense a number and a boolean are
  never empty.
\<close>

definition isEmptyValue :: "json \<Rightarrow> bool" where
  "isEmptyValue v = (v = JNull \<or> v = JStr [] \<or> v = JArr [] \<or> v = JObj [])"

definition presentNonEmpty :: "entry \<Rightarrow> string \<Rightarrow> bool" where
  "presentNonEmpty e k =
     (case property e k of None \<Rightarrow> False | Some v \<Rightarrow> \<not> isEmptyValue v)"

text \<open>
  A field is present and truthy when the record has it and its value is none of
  \<^verbatim>\<open>null\<close>, \<^verbatim>\<open>false\<close>, zero and the empty string.
\<close>

definition presentTruthy :: "entry \<Rightarrow> string \<Rightarrow> bool" where
  "presentTruthy e k =
     (case property e k of
        None \<Rightarrow> False
      | Some x \<Rightarrow> x \<noteq> JNull \<and> x \<noteq> JBool False \<and> x \<noteq> JNum 0 \<and> x \<noteq> JStr [])"

text \<open>
  The date of an entry can be constructed when \<^verbatim>\<open>new Date\<close> does not throw for its
  timestamp, and is valid when the time value is a number. The time value of an entry
  is NaN when there is none.
\<close>

definition constructs :: "platform \<Rightarrow> entry \<Rightarrow> bool" where
  "constructs pf e = (case entryTime pf e of Inl err \<Rightarrow> False | Inr t \<Rightarrow> True)"

definition validDate :: "platform \<Rightarrow> entry \<Rightarrow> bool" where
  "validDate pf e = (case entryTime pf e of Inr (Some t) \<Rightarrow> True | _ \<Rightarrow> False)"

definition timeValue :: "platform \<Rightarrow> entry \<Rightarrow> jsnum" where
  "timeValue pf e = (case entryTime pf e of Inl err \<Rightarrow> None | Inr t \<Rightarrow> t)"

text \<open>
  The sources that are all read; the accepted records of the lines of a source; the
  entries a source contributes to the merge, which are those its read resolves with;
  and the sources that contribute at least one entry.
\<close>

definition readable :: "File list \<Rightarrow> bool" where
  "readable files = list_all (\<lambda>file. readAsText file \<noteq> None) files"

definition acceptedOf :: "platform \<Rightarrow> File \<Rightarrow> entry list" where
  "acceptedOf pf file =
     (case readAsText file of None \<Rightarrow> [] | Some content \<Rightarrow> validLogs pf content)"

definition contributed :: "platform \<Rightarrow> File \<Rightarrow> entry list" where
  "contributed pf file = (case readFile pf file of Resolved logs \<Rightarrow> logs | Rejected e \<Rightarrow> [])"

definition contributing :: "platform \<Rightarrow> File list \<Rightarrow> File list" where
  "contributing pf files = filter (\<lambda>file. contributed pf file \<noteq> []) files"

text \<open>
  The name of a dataset: the identifier of the single contributing source, or the count
  of contributing sources followed by \<^verbatim>\<open>Log Files Merged\<close>.
\<close>

definition nameFor :: "File list \<Rightarrow> string" where
  "nameFor sources =
     (if length sources = 1 then name (hd sources)
      else showNat (length sources) @ '' Log Files Merged'')"

subsection \<open>Filter and choices\<close>

text \<open>
  An entry can be searched when its message is a string and its operation name is a
  string, \<^verbatim>\<open>null\<close> or missing. The text of a field is its string.
\<close>

definition searchable :: "entry \<Rightarrow> bool" where
  "searchable e =
     ((case property e ''message'' of Some (JStr m) \<Rightarrow> True | _ \<Rightarrow> False)
      \<and> (case property e ''operationName'' of
            None \<Rightarrow> True | Some JNull \<Rightarrow> True | Some (JStr n) \<Rightarrow> True | _ \<Rightarrow> False))"

definition textOf :: "entry \<Rightarrow> string \<Rightarrow> string" where
  "textOf e k = (case property e k of Some (JStr s) \<Rightarrow> s | _ \<Rightarrow> [])"

definition stringValued :: "string \<Rightarrow> entry list \<Rightarrow> bool" where
  "stringValued k logs =
     list_all (\<lambda>e. case property e k of Some (JStr s) \<Rightarrow> True | _ \<Rightarrow> False) logs"

text \<open>
  A needle is a case-insensitive substring of a text when some contiguous piece of the
  text equals the needle up to the case of the letters. An entry is kept by a filter when
  all three constraints hold, each of which an empty field lifts.
\<close>

definition caseInsensitiveSubstring :: "string \<Rightarrow> string \<Rightarrow> bool" where
  "caseInsensitiveSubstring needle hay =
     (\<exists>before piece after. hay = before @ piece @ after
                           \<and> toLowerCase piece = toLowerCase needle)"

definition keeps :: "LogFilter \<Rightarrow> entry \<Rightarrow> bool" where
  "keeps f e =
     ((search f = []
        \<or> (\<exists>m. property e ''message'' = Some (JStr m) \<and> caseInsensitiveSubstring (search f) m)
        \<or> (\<exists>n. property e ''operationName'' = Some (JStr n)
                \<and> caseInsensitiveSubstring (search f) n))
      \<and> (level f = [] \<or> property e ''traceLevel'' = Some (JStr (level f)))
      \<and> (component' f = [] \<or> property e ''component'' = Some (JStr (component' f))))"

text \<open>The sorted distinct values of a string field over a list of entries.\<close>

definition sortedDistinct :: "string \<Rightarrow> entry list \<Rightarrow> json option list" where
  "sortedDistinct k logs =
     map (\<lambda>s. Some (JStr s)) (sorted_list_of_set ((\<lambda>e. textOf e k) ` set logs))"

subsection \<open>Buckets and samples\<close>


text \<open>
  The bucket of an entry for a width starts at \<^verbatim>\<open>floor(timestamp / width) * width\<close>; an
  entry without a time value has none. An entry is an error when its level is Error or
  Critical. The entries of a list that fall into the bucket with a given start, and those
  of them that are errors.
\<close>

definition bucketStartOf :: "platform \<Rightarrow> int \<Rightarrow> entry \<Rightarrow> jsnum" where
  "bucketStartOf pf width e =
     (case timeValue pf e of
        None \<Rightarrow> None
      | Some t \<Rightarrow> Some (\<lfloor>(of_int t :: rat) / of_int width\<rfloor> * width))"

definition errorLevel :: "entry \<Rightarrow> bool" where
  "errorLevel e = (textOf e ''traceLevel'' \<in> {''Error'', ''Critical''})"

definition entriesIn :: "platform \<Rightarrow> int \<Rightarrow> entry list \<Rightarrow> jsnum \<Rightarrow> entry list" where
  "entriesIn pf width logs k = filter (\<lambda>e. bucketStartOf pf width e = k) logs"

definition errorsIn :: "platform \<Rightarrow> int \<Rightarrow> entry list \<Rightarrow> jsnum \<Rightarrow> entry list" where
  "errorsIn pf width logs k = filter errorLevel (entriesIn pf width logs k)"

text \<open>
  The difference of the time values of the last and the first entry, and the width that
  belongs to it.
\<close>

definition spanOf :: "platform \<Rightarrow> entry list \<Rightarrow> jsnum" where
  "spanOf pf logs = num_sub (timeValue pf (last logs)) (timeValue pf (hd logs))"

definition widthOf :: "platform \<Rightarrow> entry list \<Rightarrow> int" where
  "widthOf pf logs = bucketSizeMs (spanOf pf logs)"

text \<open>The distinct values of a list in the order of their first appearance.\<close>

definition firstOccurrences :: "'a list \<Rightarrow> 'a list" where
  "firstOccurrences xs = rev (remdups (rev xs))"

text \<open>The bucket that the entries of a list make for a given start.\<close>

definition bucketFor :: "platform \<Rightarrow> int \<Rightarrow> entry list \<Rightarrow> jsnum \<Rightarrow> bucket" where
  "bucketFor pf width logs k =
     \<lparr>time = toLocaleString pf k, timestamp = k, endTime = num_add k width,
      count_b = length (entriesIn pf width logs k),
      errors = length (errorsIn pf width logs k)\<rparr>"

text \<open>
  The value at a path of field names inside a value, if every step of the path is a
  field of an object. An entry carries metrics when its \<^verbatim>\<open>eventData.perfCounters\<close> is
  there and is none of \<^verbatim>\<open>null\<close>, \<^verbatim>\<open>false\<close>, zero and the empty string, or when its
  \<^verbatim>\<open>eventData.machineInfo.physicalFreeMemoryMB\<close> or its \<^verbatim>\<open>eventData.machineInfo.cpuLoad\<close>
  is there.
\<close>

fun valueAt :: "json \<Rightarrow> string list \<Rightarrow> json option" where
  "valueAt v [] = Some v"
| "valueAt (JObj kvs) (k # ks) =
     (case map_of (rev kvs) k of None \<Rightarrow> None | Some v \<Rightarrow> valueAt v ks)"
| "valueAt v (k # ks) = None"

definition carriesMetrics :: "entry \<Rightarrow> bool" where
  "carriesMetrics e =
     ((\<exists>v. valueAt (JObj e) [''eventData'', ''perfCounters''] = Some v
           \<and> v \<noteq> JNull \<and> v \<noteq> JBool False \<and> v \<noteq> JNum 0 \<and> v \<noteq> JStr [])
      \<or> valueAt (JObj e) [''eventData'', ''machineInfo'', ''physicalFreeMemoryMB''] \<noteq> None
      \<or> valueAt (JObj e) [''eventData'', ''machineInfo'', ''cpuLoad''] \<noteq> None)"

text \<open>The elements of a list at the indices a stride divides, in order.\<close>

definition everyNth :: "nat \<Rightarrow> 'a list \<Rightarrow> 'a list" where
  "everyNth n xs = map (\<lambda>i. xs ! i) (filter (\<lambda>i. i mod n = 0) [0..<length xs])"

section \<open>Sample inputs\<close>

text \<open>
  Lines of a log file and the objects \<^verbatim>\<open>JSON.parse\<close> returns for them. Line C carries a
  timestamp that is not a date, line D has no timestamp, line E is cut off, the component
  of line F is the empty array, the level of line G is \<^verbatim>\<open>false\<close>, and the timestamp of
  line X is an object with a member \<^verbatim>\<open>toString\<close>. Line N is line A behind a no-break
  space.
\<close>

definition lineA :: string where
  \<open>lineA = ''{"eventTimestamp":"2024-01-01T00:00:02.000Z","component":"Agent","traceLevel":"Info"}''\<close>

definition recordA :: entry where
  "recordA = [(''eventTimestamp'', JStr ''2024-01-01T00:00:02.000Z''),
              (''component'', JStr ''Agent''), (''traceLevel'', JStr ''Info'')]"

definition lineB :: string where
  \<open>lineB = ''{"eventTimestamp":"2024-01-01T00:00:01.000Z","component":"Runtime","traceLevel":"Error"}''\<close>

definition recordB :: entry where
  "recordB = [(''eventTimestamp'', JStr ''2024-01-01T00:00:01.000Z''),
              (''component'', JStr ''Runtime''), (''traceLevel'', JStr ''Error'')]"

definition lineC :: string where
  \<open>lineC = ''{"eventTimestamp":"n/a","component":"Agent","traceLevel":"Info"}''\<close>

definition recordC :: entry where
  "recordC = [(''eventTimestamp'', JStr ''n/a''),
              (''component'', JStr ''Agent''), (''traceLevel'', JStr ''Info'')]"

definition lineD :: string where
  \<open>lineD = ''{"component":"Agent","traceLevel":"Info","message":"no time"}''\<close>

definition recordD :: entry where
  "recordD = [(''component'', JStr ''Agent''), (''traceLevel'', JStr ''Info''),
              (''message'', JStr ''no time'')]"

definition lineE :: string where
  \<open>lineE = ''{"eventTimestamp":"2024-01-01T00:0''\<close>

definition lineF :: string where
  \<open>lineF = ''{"eventTimestamp":"2024-01-01T00:00:01.000Z","component":[],"traceLevel":"Info"}''\<close>

definition recordF :: entry where
  "recordF = [(''eventTimestamp'', JStr ''2024-01-01T00:00:01.000Z''),
              (''component'', JArr []), (''traceLevel'', JStr ''Info'')]"

definition lineG :: string where
  \<open>lineG = ''{"eventTimestamp":"2024-01-01T00:00:01.000Z","component":"Agent","traceLevel":false}''\<close>

definition recordG :: entry where
  "recordG = [(''eventTimestamp'', JStr ''2024-01-01T00:00:01.000Z''),
              (''component'', JStr ''Agent''), (''traceLevel'', JBool False)]"

definition lineX :: string where
  \<open>lineX = ''{"eventTimestamp":{"toString":1},"component":"Agent","traceLevel":"Info","eventData":{"perfCounters":{"totalCpuUsagePercent":12}}}''\<close>

definition recordX :: entry where
  "recordX = [(''eventTimestamp'', JObj [(''toString'', JNum 1)]),
              (''component'', JStr ''Agent''), (''traceLevel'', JStr ''Info''),
              (''eventData'',
                 JObj [(''perfCounters'', JObj [(''totalCpuUsagePercent'', JNum 12)])])]"

definition lineN :: string where
  "lineN = CHR 0xA0 # lineA"

text \<open>
  A platform that agrees with a browser (locale en-US, time zone UTC) on the values the
  examples use. The seven complete lines decode to their objects; the cut line and the
  line with the no-break space in front do not decode. The three timestamps are dates,
  \<^verbatim>\<open>n/a\<close> is not, and the object with the member \<^verbatim>\<open>toString\<close> has no primitive value.
  The examples convert no value other than strings to a string.
\<close>

definition sampleParse :: "string \<Rightarrow> json option" where
  "sampleParse =
     map_of [(lineA, JObj recordA), (lineB, JObj recordB), (lineC, JObj recordC),
             (lineD, JObj recordD), (lineF, JObj recordF), (lineG, JObj recordG),
             (lineX, JObj recordX)]"

definition sampleDate :: "json \<Rightarrow> error + jsnum" where
  "sampleDate v =
     (if v = JObj [(''toString'', JNum 1)] then Inl TypeError
      else Inr (map_of [(JStr ''2024-01-01T00:00:01.000Z'', 1704067201000),
                        (JStr ''2024-01-01T00:00:02.000Z'', 1704067202000),
                        (JStr ''2024-01-01T00:00:03.000Z'', 1704067203000)] v))"

definition sampleString :: "json \<Rightarrow> error + string" where
  "sampleString v =
     (case v of
        JStr s \<Rightarrow> Inr s
      | JObj kvs \<Rightarrow> (if ''toString'' \<in> fst ` set kvs then Inl TypeError
                     else Inr ''[object Object]'')
      | JBool b \<Rightarrow> Inr (if b then ''true'' else ''false'')
      | JNull \<Rightarrow> Inr ''null''
      | _ \<Rightarrow> Inr [])"

definition sampleLabel :: "jsnum \<Rightarrow> string" where
  "sampleLabel k =
     (if k = Some 1704067201000 then ''1/1, 12:00:01 AM''
      else if k = Some 1704067202000 then ''1/1, 12:00:02 AM''
      else if k = Some 1704067203000 then ''1/1, 12:00:03 AM''
      else ''Invalid Date'')"

definition samplePlatform :: platform where
  "samplePlatform =
     \<lparr>JSON_parse = sampleParse, Date_getTime = sampleDate,
      ToString = sampleString, toLocaleString = sampleLabel\<rparr>"

definition fileAB :: File where
  "fileAB = \<lparr>name = ''agent.log'', readAsText = Some (lineA @ [CHR 0x0A] @ lineB @ [CHR 0x0A])\<rparr>"

definition fileAC :: File where
  "fileAC = \<lparr>name = ''mixed.log'', readAsText = Some (lineA @ [CHR 0x0A] @ lineC)\<rparr>"

definition fileDE :: File where
  "fileDE = \<lparr>name = ''noise.txt'', readAsText = Some (lineD @ [CHR 0x0D, CHR 0x0A] @ lineE)\<rparr>"

definition fileB :: File where
  "fileB = \<lparr>name = ''b.log'', readAsText = Some lineB\<rparr>"

definition fileX :: File where
  "fileX = \<lparr>name = ''x.log'', readAsText = Some lineX\<rparr>"

definition fileXB :: File where
  "fileXB = \<lparr>name = ''xb.log'', readAsText = Some (lineX @ [CHR 0x0A] @ lineB)\<rparr>"

text \<open>
  Three entries: an information of the agent and an error of the runtime in the same
  second, and a critical event of the runtime two seconds later. The first carries
  performance counters, the third the machine information of the newer agents.
\<close>

definition entry1 :: entry where
  "entry1 =
     [(''eventTimestamp'', JStr ''2024-01-01T00:00:01.000Z''),
      (''component'', JStr ''Agent''), (''traceLevel'', JStr ''Info''),
      (''operationName'', JStr ''StartFlow''), (''message'', JStr ''Flow started''),
      (''eventData'',
         JObj [(''perfCounters'',
                  JObj [(''totalCpuUsagePercent'', JNum 12),
                        (''processCpuUsagePercent'', JNum 3),
                        (''availableMemoryMB'', JNum 2048)])])]"

definition entry2 :: entry where
  "entry2 =
     [(''eventTimestamp'', JStr ''2024-01-01T00:00:01.000Z''),
      (''component'', JStr ''Runtime''), (''traceLevel'', JStr ''Error''),
      (''message'', JStr ''Action FAILED'')]"

definition entry3 :: entry where
  "entry3 =
     [(''eventTimestamp'', JStr ''2024-01-01T00:00:03.000Z''),
      (''component'', JStr ''Runtime''), (''traceLevel'', JStr ''Critical''),
      (''operationName'', JNull), (''message'', JStr ''Agent stopped''),
      (''eventData'',
         JObj [(''machineInfo'', JObj [(''physicalFreeMemoryMB'', JNum 1024)])])]"

definition sampleLogs :: "entry list" where
  "sampleLogs = [entry1, entry2, entry3]"

text \<open>The range a click on the bucket of the third entry sets.\<close>

definition lastSecond :: TimeRange where
  "lastSecond = \<lparr>range_start = Some 1704067203000, range_end = Some 1704067204000\<rparr>"

definition noFilter :: LogFilter where
  "noFilter = \<lparr>search = [], level = [], component' = []\<rparr>"

definition bucket1 :: bucket where
  "bucket1 = \<lparr>time = ''1/1, 12:00:01 AM'', timestamp = Some 1704067201000,
              endTime = Some 1704067202000, count_b = 2, errors = 1\<rparr>"

definition bucket3 :: bucket where
  "bucket3 = \<lparr>time = ''1/1, 12:00:03 AM'', timestamp = Some 1704067203000,
              endTime = Some 1704067204000, count_b = 1, errors = 1\<rparr>"

section \<open>Properties of the sort\<close>

lemma bindE_Inr_iff: "bindE m f = Inr z \<longleftrightarrow> (\<exists>x. m = Inr x \<and> f x = Inr z)"
  by (cases m) (simp_all add: bindE_def)

lemma bindE_Inr: "bindE (Inr x) f = f x"
  by (simp add: bindE_def)

lemma bindE_Inl: "bindE (Inl e) f = Inl e"
  by (simp add: bindE_def)

lemma mset_insertSorted:
  "insertSorted c x ys = Inr zs \<Longrightarrow> mset zs = add_mset x (mset ys)"
proof (induction ys arbitrary: zs)
  case Nil
  then show ?case by auto
next
  case (Cons y ys)
  from Cons.prems obtain v where v: "c x y = Inr v"
    by (auto simp: bindE_Inr_iff)
  show ?case
  proof (cases "positive v")
    case True
    then obtain zs' where "insertSorted c x ys = Inr zs'" "zs = y # zs'"
      using Cons.prems v by (auto simp: bindE_Inr_iff bindE_Inr)
    then show ?thesis using Cons.IH by simp
  next
    case False
    then show ?thesis using Cons.prems v by (auto simp: bindE_Inr)
  qed
qed

lemma mset_array_sort: "array_sort c xs = Inr ys \<Longrightarrow> mset ys = mset xs"
proof (induction xs arbitrary: ys)
  case Nil
  then show ?case by simp
next
  case (Cons x xs)
  then obtain ys' where "array_sort c xs = Inr ys'" "insertSorted c x ys' = Inr ys"
    by (auto simp: bindE_Inr_iff)
  then show ?case using Cons.IH mset_insertSorted by fastforce
qed

lemma set_array_sort: "array_sort c xs = Inr ys \<Longrightarrow> set ys = set xs"
  using mset_array_sort by (metis set_mset_mset)

lemma array_sort_Nil_iff: "array_sort c xs = Inr [] \<longleftrightarrow> xs = []"
proof
  assume "array_sort c xs = Inr []"
  then have "mset xs = {#}" using mset_array_sort by fastforce
  then show "xs = []" by simp
qed simp

text \<open>
  Where the comparator returns a number for every pair and that number is positive
  exactly when the keys are out of order, the sort returns, and returns the elements in
  the order of their keys.
\<close>

lemma sorted_insertSorted:
  fixes key :: "'a \<Rightarrow> 'k::linorder"
  assumes "\<forall>y\<in>set ys. \<exists>v. c x y = Inr v \<and> (positive v \<longleftrightarrow> key y < key x)"
    and "sorted (map key ys)"
  shows "\<exists>zs. insertSorted c x ys = Inr zs \<and> sorted (map key zs)"
  using assms
proof (induction ys)
  case Nil
  then show ?case by simp
next
  case (Cons y ys)
  from Cons.prems(1) obtain v where v: "c x y = Inr v" "positive v \<longleftrightarrow> key y < key x"
    by auto
  show ?case
  proof (cases "positive v")
    case True
    have "\<exists>zs. insertSorted c x ys = Inr zs \<and> sorted (map key zs)"
      using Cons by simp
    then obtain zs where zs: "insertSorted c x ys = Inr zs" "sorted (map key zs)" by blast
    have "set zs = insert x (set ys)"
      using mset_insertSorted [OF zs(1)] by (metis set_mset_add_mset_insert set_mset_mset)
    then have "sorted (map key (y # zs))"
      using zs(2) True v(2) Cons.prems(2) by auto
    then show ?thesis using v(1) True zs(1) by (simp add: bindE_Inr)
  next
    case False
    then have "key x \<le> key y" using v(2) by auto
    then have "sorted (map key (x # y # ys))" using Cons.prems(2) by auto
    then show ?thesis using v(1) False by (simp add: bindE_Inr)
  qed
qed

lemma sorted_array_sort:
  fixes key :: "'a \<Rightarrow> 'k::linorder"
  assumes "\<forall>x\<in>set xs. \<forall>y\<in>set xs. \<exists>v. c x y = Inr v \<and> (positive v \<longleftrightarrow> key y < key x)"
  shows "\<exists>ys. array_sort c xs = Inr ys \<and> sorted (map key ys)"
  using assms
proof (induction xs)
  case Nil
  then show ?case by simp
next
  case (Cons x xs)
  then obtain ys where ys: "array_sort c xs = Inr ys" "sorted (map key ys)" by auto
  have "set ys = set xs" by (rule set_array_sort [OF ys(1)])
  then have "\<forall>y\<in>set ys. \<exists>v. c x y = Inr v \<and> (positive v \<longleftrightarrow> key y < key x)"
    using Cons.prems by simp
  then obtain zs where "insertSorted c x ys = Inr zs" "sorted (map key zs)"
    using sorted_insertSorted [of ys c x key] ys(2) by blast
  then show ?case using ys(1) by (simp add: bindE_Inr)
qed

lemma chronological_sorted:
  assumes "\<forall>t\<in>set ts. t \<noteq> None"
  shows "chronological ts = sorted (map the ts)"
  using assms
proof (induction ts rule: chronological.induct)
  case (1 a b rest)
  then show ?case by (cases a; cases b) force+
qed auto

lemma validDate_iff: "validDate pf e \<longleftrightarrow> (\<exists>t. entryTime pf e = Inr (Some t))"
  by (auto simp: validDate_def split: sum.splits option.splits)

lemma validDate_Some: "validDate pf e \<Longrightarrow> timeValue pf e \<noteq> None"
  by (auto simp: validDate_iff timeValue_def)

lemma validDate_timeValue: "validDate pf e \<Longrightarrow> entryTime pf e = Inr (Some (the (timeValue pf e)))"
  by (auto simp: validDate_iff timeValue_def)

lemma constructs_iff: "constructs pf e \<longleftrightarrow> entryTime pf e = Inr (timeValue pf e)"
  by (auto simp: constructs_def timeValue_def split: sum.splits)

lemma byTimestamp_valid:
  assumes "validDate pf a" "validDate pf b"
  shows "\<exists>v. byTimestamp pf a b = Inr v
             \<and> (positive v \<longleftrightarrow> the (timeValue pf b) < the (timeValue pf a))"
  using validDate_timeValue [OF assms(1)] validDate_timeValue [OF assms(2)]
  by (simp add: byTimestamp_def bindE_Inr positive_def)

lemma byTimestamp_constructs:
  assumes "constructs pf a" "constructs pf b"
  shows "\<exists>v. byTimestamp pf a b = Inr v"
  using assms by (simp add: constructs_iff byTimestamp_def bindE_Inr)

text \<open>A sort whose comparator never throws on the elements returns.\<close>

lemma insertSorted_total:
  assumes "\<forall>y\<in>set ys. \<exists>v. c x y = Inr v"
  shows "\<exists>zs. insertSorted c x ys = Inr zs"
  using assms
proof (induction ys)
  case Nil
  then show ?case by simp
next
  case (Cons y ys)
  then obtain v zs where "c x y = Inr v" "insertSorted c x ys = Inr zs" by auto
  then show ?case by (simp add: bindE_Inr)
qed

lemma array_sort_total:
  assumes "\<forall>x\<in>set xs. \<forall>y\<in>set xs. \<exists>v. c x y = Inr v"
  shows "\<exists>ys. array_sort c xs = Inr ys"
  using assms
proof (induction xs)
  case Nil
  then show ?case by simp
next
  case (Cons x xs)
  then obtain ys where ys: "array_sort c xs = Inr ys" by auto
  have "set ys = set xs" by (rule set_array_sort [OF ys])
  then have "\<forall>y\<in>set ys. \<exists>v. c x y = Inr v" using Cons.prems by simp
  then have "\<exists>zs. insertSorted c x ys = Inr zs"
    by (rule insertSorted_total)
  then obtain zs where "insertSorted c x ys = Inr zs" by blast
  then show ?case using ys by (simp add: bindE_Inr)
qed

lemma sort_by_time_total:
  assumes "\<forall>e\<in>set xs. constructs pf e"
  shows "\<exists>ys. array_sort (byTimestamp pf) xs = Inr ys"
  by (rule array_sort_total) (use assms byTimestamp_constructs in blast)

lemma chronological_array_sort:
  assumes "array_sort (byTimestamp pf) xs = Inr ys"
    and "\<forall>e\<in>set ys. validDate pf e"
  shows "chronological (map (timeValue pf) ys)"
proof -
  have same: "set ys = set xs" by (rule set_array_sort [OF assms(1)])
  have "\<forall>x\<in>set xs. \<forall>y\<in>set xs. \<exists>v. byTimestamp pf x y = Inr v
          \<and> (positive v \<longleftrightarrow> the (timeValue pf y) < the (timeValue pf x))"
    using assms(2) same byTimestamp_valid by blast
  then obtain ys' where "array_sort (byTimestamp pf) xs = Inr ys'"
      "sorted (map (\<lambda>e. the (timeValue pf e)) ys')"
    using sorted_array_sort [of xs "byTimestamp pf" "\<lambda>e. the (timeValue pf e)"] by blast
  then have s: "sorted (map (\<lambda>e. the (timeValue pf e)) ys)" using assms(1) by simp
  have "\<forall>t\<in>set (map (timeValue pf) ys). t \<noteq> None"
    using assms(2) validDate_Some by auto
  then show ?thesis using s by (simp add: chronological_sorted comp_def)
qed

section \<open>Properties of the ingestion\<close>

lemma parseLine_Some_iff:
  "parseLine pf line = Some e \<longleftrightarrow>
     trim line \<noteq> [] \<and> JSON_parse pf (trim line) = Some (JObj e)
     \<and> presentTruthy e ''eventTimestamp'' \<and> presentTruthy e ''component''
     \<and> presentTruthy e ''traceLevel''"
proof -
  have truthy_iff: "truthy x \<longleftrightarrow> x \<noteq> JNull \<and> x \<noteq> JBool False \<and> x \<noteq> JNum 0 \<and> x \<noteq> JStr []" for x
    by (cases x) auto
  have tp: "truthyOpt (property r k) = presentTruthy r k" for r k
    by (simp add: truthyOpt_def presentTruthy_def truthy_iff split: option.splits)
  show ?thesis
  proof (cases "trim line = []")
    case True
    then show ?thesis by (simp add: parseLine_def)
  next
    case False
    show ?thesis
    proof (cases "JSON_parse pf (trim line)")
      case None
      then show ?thesis using False by (simp add: parseLine_def)
    next
      case (Some parsed)
      then show ?thesis using False
        by (cases parsed) (auto simp: parseLine_def tp)
    qed
  qed
qed

lemma mset_parseLogFile:
  "parseLogFile pf content = Inr out \<Longrightarrow> mset out = mset (validLogs pf content)"
  unfolding parseLogFile_def by (rule mset_array_sort)

lemma contributed_cases:
  "contributed pf src = [] \<or> mset (contributed pf src) = mset (acceptedOf pf src)"
proof (cases "readAsText src")
  case None
  then show ?thesis by (simp add: contributed_def readFile_def)
next
  case (Some content)
  show ?thesis
  proof (cases "parseLogFile pf content")
    case (Inl err)
    then show ?thesis using Some by (simp add: contributed_def readFile_def)
  next
    case (Inr out)
    then have "contributed pf src = out" using Some by (simp add: contributed_def readFile_def)
    then show ?thesis using mset_parseLogFile [OF Inr] Some by (simp add: acceptedOf_def)
  qed
qed

lemma contributed_none:
  assumes "acceptedOf pf src = []"
  shows "contributed pf src = []"
  using contributed_cases [of pf src] assms by auto

lemma contributed_constructs:
  assumes "\<forall>e\<in>set (acceptedOf pf src). constructs pf e" "readAsText src \<noteq> None"
  shows "mset (contributed pf src) = mset (acceptedOf pf src)"
proof -
  from assms(2) obtain content where c: "readAsText src = Some content" by auto
  then have "\<forall>e\<in>set (validLogs pf content). constructs pf e"
    using assms(1) by (simp add: acceptedOf_def)
  then obtain out where out: "parseLogFile pf content = Inr out"
    unfolding parseLogFile_def using sort_by_time_total by blast
  then have "contributed pf src = out" using c by (simp add: contributed_def readFile_def)
  then show ?thesis using mset_parseLogFile [OF out] c by (simp add: acceptedOf_def)
qed

lemma promise_all_resolved:
  "promise_all (map Resolved vs) = Resolved vs"
  by (induction vs) auto

lemma promise_all_rejected:
  "Rejected e \<in> set ps \<Longrightarrow> \<exists>e'. promise_all ps = Rejected e'"
proof (induction ps rule: promise_all.induct)
  case (3 v ps)
  then show ?case by (auto split: promise.splits)
qed auto

lemma fileResult_readable:
  "readAsText file \<noteq> None \<Longrightarrow> fileResult pf file = Resolved (name file, contributed pf file)"
  by (auto simp: fileResult_def readFile_def contributed_def split: sum.splits)

lemma fileResult_unreadable:
  "readAsText file = None \<Longrightarrow> \<exists>e. fileResult pf file = Rejected e"
  by (auto simp: fileResult_def readFile_def)

lemma results_readable:
  assumes "readable files"
  shows "promise_all (map (fileResult pf) files)
           = Resolved (map (\<lambda>file. (name file, contributed pf file)) files)"
proof -
  have "map (fileResult pf) files
          = map Resolved (map (\<lambda>file. (name file, contributed pf file)) files)"
    using assms by (induction files) (auto simp: readable_def fileResult_readable)
  then show ?thesis by (simp only: promise_all_resolved)
qed

lemma results_unreadable:
  assumes "\<not> readable files"
  shows "\<exists>e. promise_all (map (fileResult pf) files) = Rejected e"
proof -
  from assms obtain fl where f: "fl \<in> set files" "readAsText fl = None"
    by (auto simp: readable_def list_all_iff)
  then obtain e where "fileResult pf fl = Rejected e"
    using fileResult_unreadable by blast
  then have "Rejected e \<in> set (map (fileResult pf) files)"
    using f(1) by (metis image_eqI set_map)
  then show ?thesis by (rule promise_all_rejected)
qed

lemma validFileResults_eq:
  "filter (\<lambda>res. snd res \<noteq> []) (map (\<lambda>file. (name file, contributed pf file)) files)
     = map (\<lambda>file. (name file, contributed pf file)) (contributing pf files)"
  by (induction files) (auto simp: contributing_def)

lemma map_snd_results:
  "map snd (map (\<lambda>file. (name file, contributed pf file)) fs) = map (contributed pf) fs"
  by simp

lemma datasetName_eq:
  "datasetName (map (\<lambda>file. (name file, contributed pf file)) fs) = nameFor fs"
proof (cases fs)
  case Nil
  then show ?thesis by (simp add: datasetName_def nameFor_def)
next
  case (Cons f rest)
  then show ?thesis by (cases rest) (simp_all add: datasetName_def nameFor_def)
qed

lemma concat_contributing:
  "concat (map (contributed pf) (contributing pf files)) = concat (map (contributed pf) files)"
  by (induction files) (auto simp: contributing_def)

lemma contributing_nonempty:
  "contributing pf files \<noteq> [] \<Longrightarrow> concat (map (contributed pf) (contributing pf files)) \<noteq> []"
  by (induction files) (auto simp: contributing_def split: if_splits)

lemma processFiles_empty:
  "processFiles pf [] st = st\<lparr>upload_isLoading := False, upload_error := None\<rparr>"
  by (simp add: processFiles_def)

lemma processFiles_unreadable:
  assumes "files \<noteq> []" "\<not> readable files"
  shows "processFiles pf files st
           = st\<lparr>upload_isLoading := False, upload_error := Some failedToProcess\<rparr>"
proof -
  obtain e where "promise_all (map (fileResult pf) files) = Rejected e"
    using results_unreadable [OF assms(2)] by blast
  then show ?thesis using assms(1) by (simp add: processFiles_def)
qed

lemma processFiles_none:
  assumes "files \<noteq> []" "readable files" "contributing pf files = []"
  shows "processFiles pf files st
           = st\<lparr>upload_isLoading := False, upload_error := Some noValidLogs\<rparr>"
  using assms(1,3)
  by (simp add: processFiles_def results_readable [OF assms(2)] validFileResults_eq Let_def
      del: map_map)

lemma processFiles_thrown:
  assumes "readable files" "contributing pf files \<noteq> []"
    and "array_sort (byTimestamp pf) (concat (map (contributed pf) (contributing pf files)))
           = Inl err"
  shows "processFiles pf files st
           = st\<lparr>upload_isLoading := False, upload_error := Some failedToProcess\<rparr>"
proof -
  have ne: "files \<noteq> []" using assms(2) by (auto simp: contributing_def)
  have all: "concat (map (contributed pf) (contributing pf files)) \<noteq> []"
    by (rule contributing_nonempty [OF assms(2)])
  show ?thesis
    using ne all assms(3)
    by (simp add: processFiles_def results_readable [OF assms(1)] validFileResults_eq Let_def
        map_snd_results del: map_map concat_eq_Nil_conv)
qed

lemma processFiles_some:
  assumes "readable files" "contributing pf files \<noteq> []"
    and "array_sort (byTimestamp pf) (concat (map (contributed pf) (contributing pf files)))
           = Inr sortedLogs"
  shows "processFiles pf files st =
           st\<lparr>upload_isLoading := False, upload_error := None,
              app_logs := sortedLogs,
              app_fileName := nameFor (contributing pf files),
              app_hasData := True\<rparr>"
proof -
  have ne: "files \<noteq> []" using assms(2) by (auto simp: contributing_def)
  have all: "concat (map (contributed pf) (contributing pf files)) \<noteq> []"
    by (rule contributing_nonempty [OF assms(2)])
  show ?thesis
    using ne all assms(3)
    by (simp add: processFiles_def results_readable [OF assms(1)] validFileResults_eq Let_def
        handleDataLoaded_def datasetName_eq map_snd_results del: map_map concat_eq_Nil_conv)
qed

lemma published_cases:
  assumes "\<not> app_hasData st" "dashboardProps (processFiles pf files st) = Some (logs, nm)"
  shows "readable files \<and> contributing pf files \<noteq> []
       \<and> array_sort (byTimestamp pf) (concat (map (contributed pf) (contributing pf files)))
           = Inr logs
       \<and> nm = nameFor (contributing pf files)"
proof -
  have has: "app_hasData (processFiles pf files st)"
    using assms(2) by (auto simp: dashboardProps_def split: if_splits)
  have ne: "files \<noteq> []"
  proof
    assume "files = []"
    then show False using has assms(1) by (simp add: processFiles_empty)
  qed
  have r: "readable files"
  proof (rule ccontr)
    assume "\<not> readable files"
    then show False using has assms(1) by (simp add: processFiles_unreadable [OF ne])
  qed
  have c: "contributing pf files \<noteq> []"
  proof
    assume "contributing pf files = []"
    then show False using has assms(1) by (simp add: processFiles_none [OF ne r])
  qed
  show ?thesis
  proof (cases "array_sort (byTimestamp pf)
                  (concat (map (contributed pf) (contributing pf files)))")
    case (Inl err)
    then show ?thesis using has assms(1) by (simp add: processFiles_thrown [OF r c Inl])
  next
    case (Inr sortedLogs)
    then show ?thesis
      using assms(2) r c by (simp add: processFiles_some [OF r c Inr] dashboardProps_def)
  qed
qed

section \<open>Properties of the filter and of the choices\<close>

lemma filterE_pure:
  assumes "\<forall>x\<in>set xs. p x = Inr (q x)"
  shows "filterE p xs = Inr (filter q xs)"
  using assms by (induction xs) (simp_all add: bindE_Inr)

lemma str_includes_sublist: "str_includes s t \<longleftrightarrow> sublist t s"
  by (induction s) (simp_all add: sublist_Cons_right)

lemma caseInsensitiveSubstring_iff:
  "caseInsensitiveSubstring needle hay \<longleftrightarrow> sublist (toLowerCase needle) (toLowerCase hay)"
proof
  assume "caseInsensitiveSubstring needle hay"
  then obtain b p a where "hay = b @ p @ a" "toLowerCase p = toLowerCase needle"
    by (auto simp: caseInsensitiveSubstring_def)
  then have "toLowerCase hay = toLowerCase b @ toLowerCase needle @ toLowerCase a"
    by (simp add: toLowerCase_def)
  then show "sublist (toLowerCase needle) (toLowerCase hay)"
    by (auto simp: sublist_def)
next
  assume "sublist (toLowerCase needle) (toLowerCase hay)"
  then obtain u v where uv: "map toLowerChar hay = u @ map toLowerChar needle @ v"
    by (auto simp: sublist_def toLowerCase_def)
  then have "\<exists>b rest. hay = b @ rest \<and> u = map toLowerChar b
                \<and> map toLowerChar needle @ v = map toLowerChar rest"
    by (simp add: map_eq_append_conv)
  then obtain b rest where b: "hay = b @ rest"
      "map toLowerChar needle @ v = map toLowerChar rest"
    by blast
  from b(2) have "\<exists>p a. rest = p @ a \<and> map toLowerChar needle = map toLowerChar p
                \<and> v = map toLowerChar a"
    by (simp add: append_eq_map_conv)
  then obtain p a where "rest = p @ a" "map toLowerChar p = map toLowerChar needle"
    by metis
  then show "caseInsensitiveSubstring needle hay"
    using b(1) by (auto simp: caseInsensitiveSubstring_def toLowerCase_def)
qed

lemma includes_lower:
  "str_includes (toLowerCase hay) (toLowerCase needle) = caseInsensitiveSubstring needle hay"
  by (simp add: str_includes_sublist caseInsensitiveSubstring_iff)

lemma matchesSearch_empty: "search f = [] \<Longrightarrow> matchesSearch f e = Inr True"
  by (simp add: matchesSearch_def)

lemma matchesSearch_searchable:
  assumes "searchable e"
  shows "matchesSearch f e =
           Inr (search f = []
                \<or> (\<exists>m. property e ''message'' = Some (JStr m)
                        \<and> caseInsensitiveSubstring (search f) m)
                \<or> (\<exists>n. property e ''operationName'' = Some (JStr n)
                        \<and> caseInsensitiveSubstring (search f) n))"
proof -
  from assms obtain m where m: "property e ''message'' = Some (JStr m)"
    by (auto simp: searchable_def split: option.splits json.splits)
  from assms consider "property e ''operationName'' = None"
    | "property e ''operationName'' = Some JNull"
    | n where "property e ''operationName'' = Some (JStr n)"
    by (auto simp: searchable_def split: option.splits json.splits)
  then show ?thesis
  proof cases
    case 1
    then show ?thesis using m
      by (simp add: matchesSearch_def lowerOf_def bindE_Inr includes_lower)
  next
    case 2
    then show ?thesis using m
      by (simp add: matchesSearch_def lowerOf_def bindE_Inr includes_lower)
  next
    case 3
    then show ?thesis using m
      by (simp add: matchesSearch_def lowerOf_def bindE_Inr includes_lower)
  qed
qed

lemma row_test:
  assumes "searchable e \<or> search f = []"
  shows "bindE (matchesSearch f e)
           (\<lambda>s. Inr (s \<and> matchesLevel f e \<and> matchesComponent f e)) = Inr (keeps f e)"
proof (cases "search f = []")
  case True
  then show ?thesis
    by (simp add: matchesSearch_empty bindE_Inr keeps_def matchesLevel_def matchesComponent_def)
next
  case False
  then have "searchable e" using assms by simp
  then show ?thesis
    by (simp add: matchesSearch_searchable bindE_Inr keeps_def matchesLevel_def
        matchesComponent_def)
qed

lemma filteredLogs_keeps:
  assumes "(\<forall>e\<in>set logs. searchable e) \<or> search f = []"
  shows "filteredLogs logs f = Inr (filter (keeps f) logs)"
  unfolding filteredLogs_def
  by (rule filterE_pure) (use assms row_test in blast)


text \<open>A set of primitive values holds each value once.\<close>

lemma setValues_snoc: "setValues (xs @ [x]) = setAdd (setValues xs) x"
  by (simp add: setValues_def)

lemma sameValueZero_primitive:
  assumes "case v of None \<Rightarrow> True | Some x \<Rightarrow> primitive x"
  shows "sameValueZero u v \<longleftrightarrow> u = v"
  using assms by (cases u; cases v) auto

lemma setValues_primitive:
  assumes "\<forall>v\<in>set xs. case v of None \<Rightarrow> True | Some x \<Rightarrow> primitive x"
  shows "set (setValues xs) = set xs \<and> distinct (setValues xs)"
  using assms
proof (induction xs rule: rev_induct)
  case Nil
  then show ?case by (simp add: setValues_def)
next
  case (snoc x xs)
  then have ih: "set (setValues xs) = set xs" "distinct (setValues xs)" by simp_all
  have "list_ex (\<lambda>u. sameValueZero u x) (setValues xs) \<longleftrightarrow> x \<in> set xs"
    using snoc.prems ih(1) by (simp add: list_ex_iff sameValueZero_primitive)
  then show ?case using ih by (auto simp: setValues_snoc setAdd_def)
qed

text \<open>The default sort of distinct strings is their sorted list.\<close>

lemma defaultCompare_strings:
  "defaultCompare pf (JStr a) (JStr b) = Inr (stringCompare a b)"
  by (simp add: defaultCompare_def stringOf_def bindE_Inr)

lemma positive_stringCompare: "positive (stringCompare x y) = (y < x)"
  by (auto simp: positive_def stringCompare_def)

lemma sort_strings:
  assumes "distinct ss"
  shows "array_sort (defaultCompare pf) (map JStr ss) = Inr (map JStr (sorted_list_of_set (set ss)))"
proof -
  define key where "key = (\<lambda>v. case v of JStr s \<Rightarrow> s | _ \<Rightarrow> [])"
  have k: "key (JStr s) = s" for s by (simp add: key_def)
  have "\<forall>x\<in>set (map JStr ss). \<forall>y\<in>set (map JStr ss).
          \<exists>v. defaultCompare pf x y = Inr v \<and> (positive v \<longleftrightarrow> key y < key x)"
    by (auto simp: defaultCompare_strings positive_stringCompare k)
  then obtain ys where ys: "array_sort (defaultCompare pf) (map JStr ss) = Inr ys"
      "sorted (map key ys)"
    using sorted_array_sort [of "map JStr ss" "defaultCompare pf" key] by blast
  have m: "mset ys = mset (map JStr ss)" by (rule mset_array_sort [OF ys(1)])
  then have "set ys = JStr ` set ss" by (metis set_map set_mset_mset)
  then have "\<forall>y\<in>set ys. JStr (key y) = y" by (auto simp: k)
  then have shape: "map JStr (map key ys) = ys"
    by (simp add: map_idI)
  have "mset (map key ys) = mset ss"
  proof -
    have "mset (map key ys) = image_mset key (mset (map JStr ss))"
      using m by (metis mset_map)
    then show ?thesis by (simp add: comp_def k multiset.map_comp)
  qed
  then have "distinct (map key ys)" "set (map key ys) = set ss"
    using assms by (metis mset_eq_imp_distinct_iff, metis set_mset_mset)
  then have "sorted_list_of_set (set ss) = map key ys"
    using ys(2) by (metis sorted_list_of_set.idem_if_sorted_distinct)
  then show ?thesis using ys(1) shape by simp
qed

lemma stringValued_iff:
  "stringValued k logs \<longleftrightarrow> (\<forall>e\<in>set logs. property e k = Some (JStr (textOf e k)))"
  by (auto simp: stringValued_def list_all_iff textOf_def split: option.splits json.splits)

lemma unique_strings:
  assumes "stringValued k logs"
  shows "sortDefault pf (setValues (map (\<lambda>l. property l k) logs)) = Inr (sortedDistinct k logs)"
proof -
  define vs where "vs = map (\<lambda>e. Some (JStr (textOf e k))) logs"
  have vals: "map (\<lambda>l. property l k) logs = vs"
    using assms by (simp add: vs_def stringValued_iff)
  have prim: "\<forall>v\<in>set vs. case v of None \<Rightarrow> True | Some x \<Rightarrow> primitive x"
    by (auto simp: vs_def)
  have sv: "set (setValues vs) = set vs" "distinct (setValues vs)"
    using setValues_primitive [OF prim] by simp_all
  have img: "set (setValues vs) = (\<lambda>e. Some (JStr (textOf e k))) ` set logs"
    using sv(1) by (simp add: vs_def)
  define ss where "ss = map (\<lambda>v. case v of Some (JStr s) \<Rightarrow> s | _ \<Rightarrow> []) (setValues vs)"
  have "\<forall>v\<in>set (setValues vs).
          Some (JStr (case v of Some (JStr s) \<Rightarrow> s | _ \<Rightarrow> [])) = v"
    unfolding img by auto
  then have "map (\<lambda>v. Some (JStr (case v of Some (JStr s) \<Rightarrow> s | _ \<Rightarrow> []))) (setValues vs)
               = setValues vs"
    by (simp add: map_idI)
  then have shape: "setValues vs = map (\<lambda>s. Some (JStr s)) ss"
    unfolding ss_def by (simp add: comp_def)
  have dist: "distinct ss"
    using sv(2) unfolding shape by (simp add: distinct_map)
  have sets: "set ss = (\<lambda>e. textOf e k) ` set logs"
  proof -
    have "(\<lambda>s. Some (JStr s)) ` set ss = (\<lambda>s. Some (JStr s)) ` (\<lambda>e. textOf e k) ` set logs"
      using img unfolding shape by (simp add: image_image)
    moreover have "inj (\<lambda>s. Some (JStr s))" by (simp add: inj_def)
    ultimately show ?thesis by (simp add: inj_image_eq_iff)
  qed
  have somes: "List.map_filter (\<lambda>v. v) (map (\<lambda>s. Some (JStr s)) ss) = map JStr ss"
    by (induction ss) (simp_all add: List.map_filter_simps)
  have none: "filter (\<lambda>v. v = None) (map (\<lambda>s. Some (JStr s)) ss) = []"
    by (induction ss) simp_all
  show ?thesis
    unfolding vals shape sortDefault_def somes none
    by (simp add: sort_strings [OF dist] bindE_Inr sortedDistinct_def sets comp_def)
qed

lemma uniqueComponents_strings:
  "stringValued ''component'' logs \<Longrightarrow>
     uniqueComponents pf logs = Inr (sortedDistinct ''component'' logs)"
  unfolding uniqueComponents_def by (rule unique_strings)

lemma uniqueLevels_strings:
  "stringValued ''traceLevel'' logs \<Longrightarrow>
     uniqueLevels pf logs = Inr (sortedDistinct ''traceLevel'' logs)"
  unfolding uniqueLevels_def by (rule unique_strings)

lemma filterE_Inr:
  "filterE p xs = Inr ys \<Longrightarrow> ys = filter (\<lambda>x. p x = Inr True) xs"
proof (induction xs arbitrary: ys)
  case Nil
  then show ?case by simp
next
  case (Cons x xs)
  then obtain keep zs where k: "p x = Inr keep" "filterE p xs = Inr zs"
      "ys = (if keep then x # zs else zs)"
    by (auto simp: bindE_Inr_iff)
  then show ?case using Cons.IH [OF k(2)] by auto
qed

lemma inRange_True:
  "inRange pf r e = Inr True \<longleftrightarrow>
     num_le (range_start r) (timeValue pf e) \<and> num_le (timeValue pf e) (range_end r)"
  by (cases "entryTime pf e"; cases "range_start r")
     (auto simp: inRange_def timeValue_def bindE_def)

lemma shown_entries:
  assumes "dashboardFilteredLogs pf logs timeRange = Inr shown"
  shows "(timeRange = None \<longrightarrow> shown = logs)
       \<and> (\<forall>r. timeRange = Some r \<longrightarrow>
             shown = filter (\<lambda>e. num_le (range_start r) (timeValue pf e)
                                  \<and> num_le (timeValue pf e) (range_end r)) logs)"
proof (cases timeRange)
  case None
  then show ?thesis using assms by (simp add: dashboardFilteredLogs_def)
next
  case (Some r)
  then have "filterE (inRange pf r) logs = Inr shown"
    using assms by (simp add: dashboardFilteredLogs_def)
  then show ?thesis using Some filterE_Inr inRange_True by fastforce
qed







section \<open>Properties of the buckets\<close>

lemma forEachE_snoc:
  "forEachE f s (xs @ [x]) = bindE (forEachE f s xs) (\<lambda>s'. f s' x)"
proof (induction xs arbitrary: s)
  case Nil
  then show ?case by (cases "f s x") (simp_all add: bindE_def)
next
  case (Cons y ys)
  then show ?case by (cases "f s y") (simp_all add: bindE_def)
qed

lemma firstOccurrences_snoc:
  "firstOccurrences (xs @ [x])
     = (if x \<in> set xs then firstOccurrences xs else firstOccurrences xs @ [x])"
  by (simp add: firstOccurrences_def)

lemma set_firstOccurrences: "set (firstOccurrences xs) = set xs"
  by (simp add: firstOccurrences_def)

lemma distinct_firstOccurrences: "distinct (firstOccurrences xs)"
  by (simp add: firstOccurrences_def)

lemma modify_map:
  "modify k f (map (\<lambda>k'. (k', g k')) ks) = map (\<lambda>k'. (k', if k' = k then f (g k') else g k')) ks"
  by (induction ks) (auto simp: modify_def)

lemma map_of_keyed: "map_of (map (\<lambda>k'. (k', g k')) ks) k = None \<longleftrightarrow> k \<notin> set ks"
  by (induction ks) auto

lemma bucketStartOf_key: "bucketStartOf pf w e = bucketKey w (timeValue pf e)"
  by (simp add: bucketStartOf_def bucketKey_def floor_divide_of_int_eq split: option.splits)

lemma isError_iff: "isError e = errorLevel e"
  by (auto simp: isError_def errorLevel_def textOf_def split: option.splits json.splits)

lemma entriesIn_snoc:
  "entriesIn pf w (logs @ [e]) k =
     (if bucketStartOf pf w e = k then entriesIn pf w logs k @ [e] else entriesIn pf w logs k)"
  by (simp add: entriesIn_def)

lemma errorsIn_snoc:
  "errorsIn pf w (logs @ [e]) k =
     (if bucketStartOf pf w e = k \<and> isError e then errorsIn pf w logs k @ [e]
      else errorsIn pf w logs k)"
  by (simp add: errorsIn_def entriesIn_snoc isError_iff)

lemma entriesIn_empty:
  "k \<notin> bucketStartOf pf w ` set logs \<Longrightarrow> entriesIn pf w logs k = []"
  by (auto simp: entriesIn_def filter_empty_conv)

lemma bucketFor_fresh:
  assumes "k \<notin> bucketStartOf pf w ` set logs"
  shows "bucketFor pf w logs k =
           \<lparr>time = toLocaleString pf k, timestamp = k, endTime = num_add k w,
            count_b = 0, errors = 0\<rparr>"
  using entriesIn_empty [OF assms] by (simp add: bucketFor_def errorsIn_def)

lemma bucketFor_snoc:
  "bucketFor pf w (logs @ [e]) k =
     (if bucketStartOf pf w e = k
      then (if isError e
            then (bucketFor pf w logs k)\<lparr>count_b := count_b (bucketFor pf w logs k) + 1,
                                          errors := errors (bucketFor pf w logs k) + 1\<rparr>
            else (bucketFor pf w logs k)\<lparr>count_b := count_b (bucketFor pf w logs k) + 1\<rparr>)
      else bucketFor pf w logs k)"
  by (simp add: bucketFor_def entriesIn_snoc errorsIn_snoc)

text \<open>
  The state of the loop after a list of entries: one bucket for each start, in the order
  in which the starts first appear, filled by the entries so far.
\<close>

lemma addLog_keyed:
  assumes ks: "ks = firstOccurrences (map (bucketStartOf pf w) logs)"
    and c: "constructs pf e"
  shows "addLog pf w (map (\<lambda>k. (k, bucketFor pf w logs k)) ks) e
           = Inr (map (\<lambda>k. (k, bucketFor pf w (logs @ [e]) k))
                      (firstOccurrences (map (bucketStartOf pf w) (logs @ [e]))))"
proof -
  define k where "k = bucketStartOf pf w e"
  have et: "entryTime pf e = Inr (timeValue pf e)" using c by (simp add: constructs_iff)
  have kdef: "bucketKey w (timeValue pf e) = k"
    by (simp add: k_def bucketStartOf_key)
  have setks: "set ks = bucketStartOf pf w ` set logs"
    by (simp add: ks set_firstOccurrences)
  define ks' where "ks' = (if k \<in> set ks then ks else ks @ [k])"
  have ks': "firstOccurrences (map (bucketStartOf pf w) (logs @ [e])) = ks'"
    using setks by (simp add: firstOccurrences_snoc ks'_def k_def ks set_firstOccurrences)
  have bs1: "(if map_of (map (\<lambda>k. (k, bucketFor pf w logs k)) ks) k = None
              then map (\<lambda>k. (k, bucketFor pf w logs k)) ks
                   @ [(k, \<lparr>time = toLocaleString pf k, timestamp = k,
                           endTime = num_add k w, count_b = 0, errors = 0\<rparr>)]
              else map (\<lambda>k. (k, bucketFor pf w logs k)) ks)
             = map (\<lambda>k. (k, bucketFor pf w logs k)) ks'"
  proof (cases "k \<in> set ks")
    case True
    then show ?thesis by (simp add: map_of_keyed ks'_def)
  next
    case False
    then have "k \<notin> bucketStartOf pf w ` set logs" using setks by simp
    then show ?thesis using False by (simp add: map_of_keyed ks'_def bucketFor_fresh)
  qed
  have "addLog pf w (map (\<lambda>k. (k, bucketFor pf w logs k)) ks) e
          = Inr (map (\<lambda>k. (k, bucketFor pf w (logs @ [e]) k)) ks')"
    unfolding addLog_def et bindE_Inr Let_def kdef bs1
    by (simp add: modify_map bucketFor_snoc k_def)
  then show ?thesis by (simp only: ks')
qed

lemma forEach_addLog:
  assumes "\<forall>e\<in>set logs. constructs pf e"
  shows "forEachE (addLog pf w) [] logs
     = Inr (map (\<lambda>k. (k, bucketFor pf w logs k))
                (firstOccurrences (map (bucketStartOf pf w) logs)))"
  using assms
proof (induction logs rule: rev_induct)
  case Nil
  then show ?case by (simp add: firstOccurrences_def)
next
  case (snoc e logs)
  then have ih: "forEachE (addLog pf w) [] logs
     = Inr (map (\<lambda>k. (k, bucketFor pf w logs k))
                (firstOccurrences (map (bucketStartOf pf w) logs)))"
    and c: "constructs pf e" by simp_all
  show ?case
    by (simp only: forEachE_snoc ih bindE_Inr addLog_keyed [OF refl c])
qed

lemma addLog_Inr: "addLog pf w bs e = Inr bs' \<Longrightarrow> constructs pf e"
  by (cases "entryTime pf e") (simp_all add: addLog_def bindE_def constructs_def)

lemma forEach_addLog_Inr:
  "forEachE (addLog pf w) s logs = Inr bs \<Longrightarrow> \<forall>e\<in>set logs. constructs pf e"
proof (induction logs arbitrary: s)
  case Nil
  then show ?case by simp
next
  case (Cons e logs)
  then obtain s' where "addLog pf w s e = Inr s'" "forEachE (addLog pf w) s' logs = Inr bs"
    by (auto simp: bindE_Inr_iff)
  then show ?case using Cons.IH addLog_Inr by fastforce
qed

lemma mset_object_values: "mset (object_values bs) = mset (map snd bs)"
proof -
  have part: "mset (filter (\<lambda>p. isArrayIndex (fst p)) bs)
               + mset (filter (\<lambda>p. \<not> isArrayIndex (fst p)) bs) = mset bs"
    by (induction bs) auto
  have "mset (object_values bs)
          = image_mset snd
              (mset (sort_key indexKey (filter (\<lambda>p. isArrayIndex (fst p)) bs)
                     @ filter (\<lambda>p. \<not> isArrayIndex (fst p)) bs))"
    by (simp only: object_values_def mset_map)
  also have "\<dots> = image_mset snd (mset bs)"
    by (simp only: mset_append mset_sort part)
  finally show ?thesis by simp
qed

lemma durationMs_constructs:
  assumes "logs \<noteq> []" "\<forall>e\<in>set logs. constructs pf e"
  shows "durationMs pf logs = Inr (spanOf pf logs)"
proof -
  have "constructs pf (hd logs)" "constructs pf (last logs)" using assms by simp_all
  then show ?thesis by (simp add: durationMs_def constructs_iff bindE_Inr spanOf_def)
qed

lemma sort_buckets_total: "\<exists>bs. array_sort byBucketStart xs = Inr bs"
  by (rule array_sort_total) (simp add: byBucketStart_def)

text \<open>
  The buckets of a dataset whose dates can all be constructed: up to their order, one
  bucket for each start, filled by the entries of the dataset.
\<close>

lemma volumeData_constructs:
  assumes "logs \<noteq> []" "\<forall>e\<in>set logs. constructs pf e"
  shows "\<exists>bs. volumeData pf logs = Inr bs
            \<and> mset bs = mset (map (bucketFor pf (widthOf pf logs) logs)
                               (firstOccurrences (map (bucketStartOf pf (widthOf pf logs)) logs)))"
proof -
  let ?w = "widthOf pf logs"
  let ?state = "map (\<lambda>k. (k, bucketFor pf ?w logs k))
                    (firstOccurrences (map (bucketStartOf pf ?w) logs))"
  obtain bs where bs: "array_sort byBucketStart (object_values ?state) = Inr bs"
    using sort_buckets_total by blast
  have v: "volumeData pf logs = Inr bs"
    using assms(1) bs
    by (simp add: volumeData_def durationMs_constructs [OF assms] bindE_Inr
        forEach_addLog [OF assms(2)] widthOf_def)
  have "mset bs = mset (map snd ?state)"
    using mset_array_sort [OF bs] by (simp only: mset_object_values)
  then show ?thesis using v by (simp add: comp_def)
qed

lemma volumeData_Inr:
  assumes "volumeData pf logs = Inr bs" "logs \<noteq> []"
  shows "\<forall>e\<in>set logs. constructs pf e"
proof -
  from assms obtain d bs0 where "forEachE (addLog pf (bucketSizeMs d)) [] logs = Inr bs0"
    by (auto simp: volumeData_def bindE_Inr_iff)
  then show ?thesis by (rule forEach_addLog_Inr)
qed

lemma volumeData_buckets:
  assumes "volumeData pf logs = Inr bs" "logs \<noteq> []"
  shows "mset bs = mset (map (bucketFor pf (widthOf pf logs) logs)
                         (firstOccurrences (map (bucketStartOf pf (widthOf pf logs)) logs)))"
  using volumeData_constructs [OF assms(2) volumeData_Inr [OF assms]] assms(1) by auto

lemma bucket_of_volumeData:
  assumes "volumeData pf logs = Inr bs" "logs \<noteq> []" "b \<in> set bs"
  shows "b = bucketFor pf (widthOf pf logs) logs (timestamp b)
       \<and> timestamp b \<in> bucketStartOf pf (widthOf pf logs) ` set logs"
proof -
  have "set bs = set (map (bucketFor pf (widthOf pf logs) logs)
                       (firstOccurrences (map (bucketStartOf pf (widthOf pf logs)) logs)))"
    using volumeData_buckets [OF assms(1,2)] by (metis set_mset_mset)
  then obtain k where k: "k \<in> bucketStartOf pf (widthOf pf logs) ` set logs"
      and b: "b = bucketFor pf (widthOf pf logs) logs k"
    using assms(3) by (auto simp: set_firstOccurrences)
  have "timestamp b = k" by (simp add: b bucketFor_def)
  then show ?thesis using k b by simp
qed

lemma timestamps_volumeData:
  assumes "volumeData pf logs = Inr bs" "logs \<noteq> []"
  shows "mset (map timestamp bs)
           = mset (firstOccurrences (map (bucketStartOf pf (widthOf pf logs)) logs))"
proof -
  have "mset (map timestamp bs) = image_mset timestamp (mset bs)" by simp
  also have "\<dots> = image_mset timestamp (mset (map (bucketFor pf (widthOf pf logs) logs)
                       (firstOccurrences (map (bucketStartOf pf (widthOf pf logs)) logs))))"
    by (simp only: volumeData_buckets [OF assms])
  also have "\<dots> = mset (firstOccurrences (map (bucketStartOf pf (widthOf pf logs)) logs))"
    by (simp add: comp_def bucketFor_def multiset.map_comp)
  finally show ?thesis .
qed

lemma sum_counts_by_key:
  fixes key :: "'a \<Rightarrow> 'k"
  shows "(\<Sum>k\<leftarrow>firstOccurrences (map key xs). length (filter (\<lambda>e. key e = k) xs)) = length xs"
proof -
  have "(\<Sum>k\<leftarrow>firstOccurrences (map key xs). length (filter (\<lambda>e. key e = k) xs))
          = (\<Sum>k\<in>set (firstOccurrences (map key xs)). length (filter (\<lambda>e. key e = k) xs))"
    by (rule sum_list_distinct_conv_sum_set) (rule distinct_firstOccurrences)
  also have "\<dots> = (\<Sum>k\<in>key ` set xs. count_list (map key xs) k)"
  proof (rule sum.cong)
    show "set (firstOccurrences (map key xs)) = key ` set xs"
      by (simp add: set_firstOccurrences)
  next
    fix k
    show "length (filter (\<lambda>e. key e = k) xs) = count_list (map key xs) k"
      by (induction xs) auto
  qed
  also have "\<dots> = length (map key xs)"
    using sum_count_set [of "map key xs" "key ` set xs"] by simp
  finally show ?thesis by simp
qed

lemma sum_counts_volumeData:
  assumes "volumeData pf logs = Inr bs" "logs \<noteq> []"
  shows "sum_list (map count_b bs) = length logs"
proof -
  let ?w = "widthOf pf logs"
  have "sum_list (map count_b bs) = sum_mset (image_mset count_b (mset bs))"
    by (metis mset_map sum_mset_sum_list)
  also have "\<dots> = sum_mset (image_mset count_b (mset (map (bucketFor pf ?w logs)
                       (firstOccurrences (map (bucketStartOf pf ?w) logs)))))"
    by (simp only: volumeData_buckets [OF assms])
  also have "\<dots> = (\<Sum>k\<leftarrow>firstOccurrences (map (bucketStartOf pf ?w) logs).
                      length (filter (\<lambda>e. bucketStartOf pf ?w e = k) logs))"
    by (simp add: sum_mset_sum_list [symmetric] comp_def bucketFor_def entriesIn_def
        multiset.map_comp del: sum_mset_sum_list)
  also have "\<dots> = length logs" by (rule sum_counts_by_key)
  finally show ?thesis .
qed

lemma entriesIn_nonempty:
  assumes "k \<in> bucketStartOf pf w ` set logs"
  shows "1 \<le> length (entriesIn pf w logs k)"
proof -
  from assms obtain e where "e \<in> set logs" "bucketStartOf pf w e = k" by blast
  then have "e \<in> set (entriesIn pf w logs k)" by (simp add: entriesIn_def)
  then have "entriesIn pf w logs k \<noteq> []" by auto
  then show ?thesis by (simp add: Suc_le_eq)
qed

lemma length_filter_count:
  "length (filter (\<lambda>b. f b = k) xs) = count (mset (map f xs)) k"
  by (induction xs) auto

lemma one_bucket_per_entry:
  assumes "volumeData pf logs = Inr bs" "logs \<noteq> []" "e \<in> set logs"
  shows "length (filter (\<lambda>b. timestamp b = bucketStartOf pf (widthOf pf logs) e) bs) = 1"
proof -
  let ?k = "bucketStartOf pf (widthOf pf logs) e"
  let ?ks = "firstOccurrences (map (bucketStartOf pf (widthOf pf logs)) logs)"
  have "length (filter (\<lambda>b. timestamp b = ?k) bs) = count (mset (map timestamp bs)) ?k"
    by (rule length_filter_count)
  also have "\<dots> = count (mset ?ks) ?k"
    by (simp only: timestamps_volumeData [OF assms(1,2)])
  also have "\<dots> = 1"
  proof -
    have "?k \<in> set ?ks" using assms(3) by (simp add: set_firstOccurrences)
    then show ?thesis
      using distinct_firstOccurrences [of "map (bucketStartOf pf (widthOf pf logs)) logs"]
      by (simp add: distinct_count_atmost_1)
  qed
  finally show ?thesis .
qed



lemma validDate_constructs: "validDate pf e \<Longrightarrow> constructs pf e"
  by (auto simp: validDate_iff constructs_def)


text \<open>The start of a bucket is the greatest multiple of the width at most the time value.\<close>

lemma bucketSizeMs_pos: "0 < bucketSizeMs d"
  by (simp add: bucketSizeMs_def)

lemma bucketStart_floor:
  assumes "timeValue pf e = Some t"
  shows "\<exists>k. bucketStartOf pf (widthOf pf logs) e = Some k \<and> widthOf pf logs dvd k
             \<and> k \<le> t \<and> t < k + widthOf pf logs"
proof -
  let ?w = "widthOf pf logs"
  have w: "0 < ?w" by (simp add: widthOf_def bucketSizeMs_pos)
  have k: "bucketStartOf pf ?w e = Some (t div ?w * ?w)"
    by (simp add: bucketStartOf_key bucketKey_def assms)
  have eq: "t div ?w * ?w = t - t mod ?w"
    by (simp add: minus_mod_eq_div_mult)
  have "0 \<le> t mod ?w" "t mod ?w < ?w" using w by simp_all
  then have "t div ?w * ?w \<le> t" "t < t div ?w * ?w + ?w" unfolding eq by linarith+
  then show ?thesis using k by simp
qed

section \<open>Properties of the performance series\<close>

lemma mapE_Inr_iff: "mapE f xs = Inr ys \<longleftrightarrow> map f xs = map Inr ys"
proof (induction xs arbitrary: ys)
  case Nil
  then show ?case by auto
next
  case (Cons x xs)
  show ?case
  proof (cases ys)
    case Nil
    then show ?thesis by (auto simp: bindE_Inr_iff)
  next
    case (Cons y ys')
    then show ?thesis using Cons.IH [of ys'] by (auto simp: bindE_Inr_iff)
  qed
qed

lemma mapE_total:
  assumes "\<forall>x\<in>set xs. \<exists>y. f x = Inr y"
  shows "\<exists>ys. mapE f xs = Inr ys"
  using assms
proof (induction xs)
  case Nil
  then show ?case by simp
next
  case (Cons x xs)
  then obtain y ys where "f x = Inr y" "mapE f xs = Inr ys" by auto
  then show ?case by (simp add: bindE_Inr)
qed

lemma metricPoint_constructs:
  assumes "constructs pf e"
  shows "\<exists>p. metricPoint pf e = Inr p \<and> point_timestamp p = timeValue pf e"
proof -
  have "entryTime pf e = Inr (timeValue pf e)" using assms by (simp add: constructs_iff)
  then show ?thesis by (simp add: metricPoint_def bindE_Inr Let_def)
qed

lemma metricPoint_timestamp:
  assumes "metricPoint pf e = Inr p"
  shows "point_timestamp p = timeValue pf e"
proof -
  obtain t where t: "entryTime pf e = Inr t"
    using assms by (auto simp: metricPoint_def bindE_Inr_iff)
  then have "constructs pf e" by (simp add: constructs_def)
  then show ?thesis using metricPoint_constructs [of pf e] assms by auto
qed

lemma timestamps_of_points:
  "map (metricPoint pf) ys = map Inr pts \<Longrightarrow> map point_timestamp pts = map (timeValue pf) ys"
proof (induction ys arbitrary: pts)
  case Nil
  then show ?case by simp
next
  case (Cons y ys)
  then obtain p ps where "pts = p # ps" "metricPoint pf y = Inr p"
    "map (metricPoint pf) ys = map Inr ps"
    by (cases pts) auto
  then show ?case using Cons.IH [of ps] metricPoint_timestamp [of pf y p] by simp
qed

lemma hasMetrics_iff: "hasMetrics e = carriesMetrics e"
proof -
  have opt: "optional (optional (property e ''eventData'') a) b
               = valueAt (JObj e) [''eventData'', a, b]" for a b
    by (auto simp: optional_def property_def split: option.splits json.splits)
  have pc: "truthyOpt (optional (property e ''eventData'') ''perfCounters'')
            \<longleftrightarrow> (\<exists>v. valueAt (JObj e) [''eventData'', ''perfCounters''] = Some v
                    \<and> v \<noteq> JNull \<and> v \<noteq> JBool False \<and> v \<noteq> JNum 0 \<and> v \<noteq> JStr [])"
  proof -
    have "optional (property e ''eventData'') ''perfCounters''
            = valueAt (JObj e) [''eventData'', ''perfCounters'']"
      by (auto simp: optional_def property_def split: option.splits json.splits)
    moreover have "truthy v \<longleftrightarrow> v \<noteq> JNull \<and> v \<noteq> JBool False \<and> v \<noteq> JNum 0 \<and> v \<noteq> JStr []"
      for v by (cases v) auto
    ultimately show ?thesis by (auto simp: truthyOpt_def split: option.splits)
  qed
  show ?thesis
    unfolding hasMetrics_def carriesMetrics_def Let_def pc opt by (rule refl)
qed

lemma perfLogs_carries: "perfLogs xs = filter carriesMetrics xs"
proof -
  have "hasMetrics = carriesMetrics" using hasMetrics_iff by blast
  then show ?thesis by (simp add: perfLogs_def)
qed

lemma sampled_everyNth: "sampled xs = everyNth (step xs) (perfLogs xs)"
proof -
  have z: "enumerate 0 ys = map (\<lambda>i. (i, ys ! i)) [0..<length ys]" for ys :: "entry list"
  proof -
    have "zip [0..<length ys] ys = zip [0..<length ys] (map (\<lambda>i. ys ! i) [0..<length ys])"
      by (simp add: map_nth)
    also have "\<dots> = map (\<lambda>i. (i, ys ! i)) [0..<length ys]"
      by (simp only: zip_map2 zip_same_conv_map) simp
    finally show ?thesis by (simp add: enumerate_eq_zip)
  qed
  show ?thesis
    by (simp add: sampled_def everyNth_def z filter_map comp_def)
qed

lemma subseq_everyNth: "subseq (everyNth n xs) xs"
proof -
  have "subseq (filter (\<lambda>i. i mod n = 0) [0..<length xs]) [0..<length xs]"
    by simp
  then have "subseq (map (\<lambda>i. xs ! i) (filter (\<lambda>i. i mod n = 0) [0..<length xs]))
               (map (\<lambda>i. xs ! i) [0..<length xs])"
    by (rule subseq_map)
  then show ?thesis by (simp add: everyNth_def map_nth)
qed

lemma length_everyNth_le:
  assumes "0 < n" "length xs \<le> m * n"
  shows "length (everyNth n xs) \<le> m"
proof -
  let ?S = "{i. i mod n = 0} \<inter> set [0..<length xs]"
  have len: "length (everyNth n xs) = card ?S"
    by (simp add: everyNth_def distinct_length_filter)
  have inj: "inj_on (\<lambda>i. i div n) ?S"
  proof (rule inj_onI)
    fix i j
    assume "i \<in> ?S" "j \<in> ?S" "i div n = j div n"
    then have "i mod n = j mod n" "i div n = j div n" by simp_all
    then show "i = j" by (metis div_mult_mod_eq)
  qed
  have "(\<lambda>i. i div n) ` ?S \<subseteq> {0..<m}"
  proof
    fix k
    assume "k \<in> (\<lambda>i. i div n) ` ?S"
    then obtain i where i: "i < length xs" "k = i div n" by auto
    then have "i < m * n" using assms(2) by simp
    then show "k \<in> {0..<m}" using i by (simp add: less_mult_imp_div_less)
  qed
  then have "card ((\<lambda>i. i div n) ` ?S) \<le> card {0..<m}"
    by (intro card_mono) simp_all
  then show ?thesis using len card_image [OF inj] by simp
qed

lemma step_bound: "length (perfLogs xs) \<le> 500 * step xs"
proof -
  let ?N = "length (perfLogs xs)"
  have "(of_nat ?N :: rat) / 500 \<le> of_int \<lceil>(of_nat ?N :: rat) / 500\<rceil>"
    by (rule le_of_int_ceiling)
  moreover have "x / 500 \<le> c \<Longrightarrow> x \<le> 500 * c" for x c :: rat
    by simp
  ultimately have "(of_nat ?N :: rat) \<le> 500 * of_int \<lceil>(of_nat ?N :: rat) / 500\<rceil>"
    by blast
  moreover have "0 \<le> \<lceil>(of_nat ?N :: rat) / 500\<rceil>" by simp
  ultimately have "(of_nat ?N :: rat) \<le> of_nat (500 * step xs)"
    by (simp add: step_def)
  then show ?thesis by (simp only: of_nat_le_iff)
qed

lemma step_pos: "perfLogs xs \<noteq> [] \<Longrightarrow> 0 < step xs"
  using step_bound [of xs] by (cases "step xs") simp_all

lemma everyNth_first:
  assumes "xs \<noteq> []"
  shows "everyNth n xs \<noteq> [] \<and> hd (everyNth n xs) = hd xs"
proof -
  have "[0..<length xs] = 0 # [1..<length xs]"
    using assms by (simp add: upt_conv_Cons)
  then show ?thesis using assms by (simp add: everyNth_def hd_conv_nth)
qed

lemma everyNth_nth:
  assumes "0 < n"
  shows "set (everyNth n xs) = {xs ! i | i. i < length xs \<and> n dvd i}"
  by (auto simp: everyNth_def dvd_eq_mod_eq_0)

lemma perfData_empty: "perfLogs xs = [] \<Longrightarrow> perfData pf xs = Inr []"
  by (simp add: perfData_def)

lemma perfData_sampled:
  "perfData pf xs = mapE (metricPoint pf) (everyNth (step xs) (perfLogs xs))"
proof (cases "perfLogs xs = []")
  case True
  then show ?thesis by (simp add: perfData_def everyNth_def)
next
  case False
  then show ?thesis by (simp add: perfData_def sampled_everyNth)
qed

section \<open>Claims about the ingestion\<close>

text \<open>
  Claim C1, as amended. When an ingestion publishes a dataset and the timestamp of every
  entry of that dataset is a valid date, the dataset is sorted in time: the time value of
  each entry is at most that of the next one. The parser accepts any truthy
  \<^verbatim>\<open>eventTimestamp\<close>, so a dataset can hold an entry whose time value is NaN, and no
  order of such a dataset is chronological.
\<close>

theorem merged_dataset_chronological:
  assumes "\<not> app_hasData st"
    and "dashboardProps (processFiles pf files st) = Some (logs, nm)"
    and "\<forall>e\<in>set logs. validDate pf e"
  shows "chronological (map (timeValue pf) logs)"
proof -
  have "array_sort (byTimestamp pf) (concat (map (contributed pf) (contributing pf files)))
          = Inr logs"
    using published_cases [OF assms(1,2)] by simp
  then show ?thesis using assms(3) by (rule chronological_array_sort)
qed

text \<open>
  The theorem at two sources, one of which holds no valid line: the two valid lines of
  the other come out in the order of their timestamps.
\<close>

theorem merged_dataset_chronological_witness:
  "\<not> app_hasData initialState
   \<and> dashboardProps (processFiles samplePlatform [fileDE, fileAB] initialState)
       = Some ([recordB, recordA], ''agent.log'')
   \<and> entryTime samplePlatform recordB = Inr (Some 1704067201000)
   \<and> entryTime samplePlatform recordA = Inr (Some 1704067202000)
   \<and> chronological (map (timeValue samplePlatform) [recordB, recordA])"
proof -
  have h1: "\<not> app_hasData initialState" by code_simp
  have h2: "dashboardProps (processFiles samplePlatform [fileDE, fileAB] initialState)
       = Some ([recordB, recordA], ''agent.log'')" by code_simp
  have tB: "entryTime samplePlatform recordB = Inr (Some 1704067201000)" by code_simp
  have tA: "entryTime samplePlatform recordA = Inr (Some 1704067202000)" by code_simp
  have h3: "\<forall>e\<in>set [recordB, recordA]. validDate samplePlatform e"
    using tA tB by (simp add: validDate_def)
  show ?thesis using h1 h2 tA tB merged_dataset_chronological [OF h1 h2 h3] by simp
qed

text \<open>
  Claim C1 as stated fails. A source with line A and line C yields a dataset of two
  entries; the time value of line C is NaN, so the pair is not in order (and would not
  be in the opposite order either).
\<close>

theorem merged_dataset_unsorted_counterexample:
  "dashboardProps (processFiles samplePlatform [fileAC] initialState)
     = Some ([recordA, recordC], ''mixed.log'')
   \<and> \<not> chronological (map (timeValue samplePlatform) [recordA, recordC])"
  by code_simp

text \<open>
  Claim C2, as amended. A line produces an entry exactly when the line, with the white
  space trimmed from both ends, is not empty and decodes to an object whose
  \<^verbatim>\<open>eventTimestamp\<close>, \<^verbatim>\<open>component\<close> and \<^verbatim>\<open>traceLevel\<close> are present and truthy: none of
  \<^verbatim>\<open>null\<close>, \<^verbatim>\<open>false\<close>, zero and the empty string. The entry is then the decoded object,
  and no other field takes part. Whenever the parser returns for a file, its output
  consists of the entries of the accepted lines, each once, and nothing else; it throws
  only when the timestamp of an accepted line cannot be made a date.
\<close>

theorem record_parser_accepts:
  "(parseLine pf line = Some e \<longleftrightarrow>
      trim line \<noteq> [] \<and> JSON_parse pf (trim line) = Some (JObj e)
      \<and> presentTruthy e ''eventTimestamp'' \<and> presentTruthy e ''component''
      \<and> presentTruthy e ''traceLevel'')
   \<and> (\<forall>out. parseLogFile pf content = Inr out \<longrightarrow>
         mset out = mset (List.map_filter (parseLine pf) (split_lines content)))
   \<and> (\<forall>err. parseLogFile pf content = Inl err \<longrightarrow>
         (\<exists>a\<in>set (List.map_filter (parseLine pf) (split_lines content)). \<not> constructs pf a))"
proof -
  have out: "mset out = mset (List.map_filter (parseLine pf) (split_lines content))"
    if "parseLogFile pf content = Inr out" for out
    using mset_parseLogFile [OF that] by (simp only: validLogs_def)
  have thrown: "\<exists>a\<in>set (List.map_filter (parseLine pf) (split_lines content)). \<not> constructs pf a"
    if "parseLogFile pf content = Inl err" for err
  proof (rule ccontr)
    assume "\<not> (\<exists>a\<in>set (List.map_filter (parseLine pf) (split_lines content)).
                 \<not> constructs pf a)"
    then have "\<forall>a\<in>set (validLogs pf content). constructs pf a"
      by (simp add: validLogs_def)
    then have "\<exists>ys. parseLogFile pf content = Inr ys"
      unfolding parseLogFile_def by (rule sort_by_time_total)
    then show False using that by simp
  qed
  show ?thesis using parseLine_Some_iff [of pf line e] out thrown by blast
qed

text \<open>
  The theorem at three lines: line A is accepted, line D decodes but lacks the
  timestamp, and line E does not decode. The file of lines A and B is parsed to its two
  entries.
\<close>

theorem record_parser_accepts_witness:
  "parseLine samplePlatform lineA = Some recordA
   \<and> presentTruthy recordA ''eventTimestamp'' \<and> presentTruthy recordA ''component''
   \<and> presentTruthy recordA ''traceLevel''
   \<and> JSON_parse samplePlatform (trim lineD) = Some (JObj recordD)
   \<and> \<not> presentTruthy recordD ''eventTimestamp''
   \<and> parseLine samplePlatform lineD \<noteq> Some recordD
   \<and> JSON_parse samplePlatform (trim lineE) = None
   \<and> parseLine samplePlatform lineE \<noteq> Some recordA
   \<and> parseLogFile samplePlatform (lineA @ [CHR 0x0A] @ lineB) = Inr [recordB, recordA]
   \<and> mset [recordB, recordA]
       = mset (List.map_filter (parseLine samplePlatform) (split_lines (lineA @ [CHR 0x0A] @ lineB)))"
proof -
  have a: "parseLine samplePlatform lineA = Some recordA" by code_simp
  have d: "JSON_parse samplePlatform (trim lineD) = Some (JObj recordD)" by code_simp
  have d': "\<not> presentTruthy recordD ''eventTimestamp''" by code_simp
  have e: "JSON_parse samplePlatform (trim lineE) = None" by code_simp
  have p: "parseLogFile samplePlatform (lineA @ [CHR 0x0A] @ lineB) = Inr [recordB, recordA]"
    by code_simp
  have m: "mset [recordB, recordA]
       = mset (List.map_filter (parseLine samplePlatform) (split_lines (lineA @ [CHR 0x0A] @ lineB)))"
    using p record_parser_accepts [of samplePlatform lineA recordA "lineA @ [CHR 0x0A] @ lineB"]
    by blast
  show ?thesis
    using a d d' e p m
      record_parser_accepts [of samplePlatform lineA recordA lineA]
      record_parser_accepts [of samplePlatform lineD recordD lineA]
      record_parser_accepts [of samplePlatform lineE recordA lineA]
    by simp
qed

text \<open>
  Claim C2 as stated fails in three ways. Line F is accepted although its component, the
  empty array, is empty. Line G decodes and has all three fields, none of them empty, and
  is skipped, because its level is \<^verbatim>\<open>false\<close>. Line N does not decode as it stands, since
  a no-break space is no white space of JSON, and is accepted, because the parser decodes
  the trimmed line.
\<close>

theorem record_parser_counterexample:
  "parseLine samplePlatform lineF = Some recordF
   \<and> \<not> presentNonEmpty recordF ''component''
   \<and> JSON_parse samplePlatform lineG = Some (JObj recordG)
   \<and> presentNonEmpty recordG ''eventTimestamp'' \<and> presentNonEmpty recordG ''component''
   \<and> presentNonEmpty recordG ''traceLevel''
   \<and> parseLine samplePlatform lineG = None
   \<and> JSON_parse samplePlatform lineN = None
   \<and> parseLine samplePlatform lineN = Some recordA"
  by code_simp

text \<open>
  Claim C5, as amended. With no source at all the ingestion returns at once: it reports
  nothing and publishes nothing. With at least one source, all of them read, and no
  accepted line in any, it reports that no valid logs were found and leaves the held
  dataset as it was. When all sources are read, one of them has an accepted line, and
  the timestamp of every accepted line can be made a date, no error is reported and a
  dataset with exactly the accepted entries of all sources is published.
\<close>

theorem ingestion_outcome:
  assumes "st' = processFiles pf files st"
  shows "(files = [] \<longrightarrow>
            upload_error st' = None
            \<and> app_logs st' = app_logs st \<and> app_fileName st' = app_fileName st
            \<and> app_hasData st' = app_hasData st)
       \<and> (files \<noteq> [] \<and> readable files \<and> (\<forall>f\<in>set files. acceptedOf pf f = []) \<longrightarrow>
            upload_error st' = Some noValidLogs
            \<and> app_logs st' = app_logs st \<and> app_fileName st' = app_fileName st
            \<and> app_hasData st' = app_hasData st)
       \<and> (readable files \<and> (\<exists>f\<in>set files. acceptedOf pf f \<noteq> [])
            \<and> (\<forall>f\<in>set files. \<forall>e\<in>set (acceptedOf pf f). constructs pf e) \<longrightarrow>
            upload_error st' = None \<and> app_hasData st' \<and> app_logs st' \<noteq> []
            \<and> mset (app_logs st') = mset (concat (map (acceptedOf pf) files)))"
proof -
  have none: "upload_error st' = None
      \<and> app_logs st' = app_logs st \<and> app_fileName st' = app_fileName st
      \<and> app_hasData st' = app_hasData st" if "files = []"
  proof -
    have "st' = st\<lparr>upload_isLoading := False, upload_error := None\<rparr>"
      using assms that by (simp add: processFiles_empty)
    then show ?thesis by simp
  qed
  have empty: "upload_error st' = Some noValidLogs
      \<and> app_logs st' = app_logs st \<and> app_fileName st' = app_fileName st
      \<and> app_hasData st' = app_hasData st"
    if a: "files \<noteq> [] \<and> readable files \<and> (\<forall>f\<in>set files. acceptedOf pf f = [])"
  proof -
    have "contributing pf files = []"
      using a by (simp add: contributing_def contributed_none)
    then have "st' = st\<lparr>upload_isLoading := False, upload_error := Some noValidLogs\<rparr>"
      using assms a by (simp add: processFiles_none)
    then show ?thesis by simp
  qed
  have some: "upload_error st' = None \<and> app_hasData st' \<and> app_logs st' \<noteq> []
      \<and> mset (app_logs st') = mset (concat (map (acceptedOf pf) files))"
    if a: "readable files \<and> (\<exists>f\<in>set files. acceptedOf pf f \<noteq> [])
            \<and> (\<forall>f\<in>set files. \<forall>e\<in>set (acceptedOf pf f). constructs pf e)"
  proof -
    have each: "mset (contributed pf f) = mset (acceptedOf pf f)" if "f \<in> set files" for f
      using a that by (intro contributed_constructs) (auto simp: readable_def list_all_iff)
    have all: "mset (concat (map (contributed pf) files)) = mset (concat (map (acceptedOf pf) files))"
      using each by (induction files) auto
    obtain f where f: "f \<in> set files" "acceptedOf pf f \<noteq> []" using a by blast
    then have "contributed pf f \<noteq> []" using each [OF f(1)] by (metis mset_zero_iff)
    then have c: "contributing pf files \<noteq> []"
      using f(1) by (auto simp: contributing_def filter_empty_conv)
    have "\<forall>e\<in>set (concat (map (contributed pf) (contributing pf files))). constructs pf e"
    proof
      fix e assume "e \<in> set (concat (map (contributed pf) (contributing pf files)))"
      then have "e \<in># mset (concat (map (contributed pf) files))"
        by (simp only: concat_contributing set_mset_mset)
      then have "e \<in> set (concat (map (acceptedOf pf) files))"
        by (simp only: all set_mset_mset)
      then show "constructs pf e" using a by auto
    qed
    then obtain sortedLogs where s:
      "array_sort (byTimestamp pf) (concat (map (contributed pf) (contributing pf files)))
         = Inr sortedLogs"
      using sort_by_time_total by blast
    have st': "st' = st\<lparr>upload_isLoading := False, upload_error := None,
                app_logs := sortedLogs,
                app_fileName := nameFor (contributing pf files),
                app_hasData := True\<rparr>"
      using assms a c s by (simp add: processFiles_some)
    have m: "mset sortedLogs = mset (concat (map (acceptedOf pf) files))"
      using mset_array_sort [OF s] all by (simp only: concat_contributing)
    have "concat (map (contributed pf) (contributing pf files)) \<noteq> []"
      by (rule contributing_nonempty [OF c])
    then have "sortedLogs \<noteq> []" using s by (metis array_sort_Nil_iff)
    then show ?thesis using st' m by simp
  qed
  show ?thesis using none empty some by blast
qed

text \<open>The theorem at no source, at a source of noise only, and at noise with a log.\<close>

theorem ingestion_outcome_witness:
  "upload_error (processFiles samplePlatform [] initialState) = None
   \<and> app_hasData (processFiles samplePlatform [] initialState) = app_hasData initialState
   \<and> readable [fileDE] \<and> acceptedOf samplePlatform fileDE = []
   \<and> upload_error (processFiles samplePlatform [fileDE] initialState) = Some noValidLogs
   \<and> app_hasData (processFiles samplePlatform [fileDE] initialState) = app_hasData initialState
   \<and> readable [fileDE, fileAB] \<and> acceptedOf samplePlatform fileAB = [recordA, recordB]
   \<and> constructs samplePlatform recordA \<and> constructs samplePlatform recordB
   \<and> upload_error (processFiles samplePlatform [fileDE, fileAB] initialState) = None
   \<and> app_hasData (processFiles samplePlatform [fileDE, fileAB] initialState)"
proof -
  have r1: "readable [fileDE]" by code_simp
  have e1: "acceptedOf samplePlatform fileDE = []" by code_simp
  have r2: "readable [fileDE, fileAB]" by code_simp
  have e2: "acceptedOf samplePlatform fileAB = [recordA, recordB]" by code_simp
  have cA: "constructs samplePlatform recordA" by code_simp
  have cB: "constructs samplePlatform recordB" by code_simp
  show ?thesis
    using r1 e1 r2 e2 cA cB
      ingestion_outcome [of "processFiles samplePlatform [] initialState" samplePlatform "[]" initialState]
      ingestion_outcome [of "processFiles samplePlatform [fileDE] initialState" samplePlatform "[fileDE]" initialState]
      ingestion_outcome [of "processFiles samplePlatform [fileDE, fileAB] initialState" samplePlatform "[fileDE, fileAB]" initialState]
    by simp
qed

text \<open>
  Claim C5 as stated fails for zero sources: the early return leaves the error unset, so
  the condition is not reported.
\<close>

theorem no_sources_counterexample:
  "upload_error (processFiles samplePlatform [] initialState) \<noteq> Some noValidLogs"
  by code_simp

text \<open>
  Claim C9. The name of a published dataset is the name of the single source that
  contributed an entry when there is exactly one, and otherwise the count of
  contributing sources followed by \<^verbatim>\<open>Log Files Merged\<close>. The dataset consists of the
  entries the sources contributed, and what a source contributes is either nothing or
  the accepted records of its lines. The sources that contribute nothing do not matter:
  the ingestion of the contributing sources alone ends in the same state.
\<close>

theorem dataset_name:
  assumes "\<not> app_hasData st"
    and "dashboardProps (processFiles pf files st) = Some (logs, nm)"
  shows "nm = nameFor (contributing pf files)
       \<and> mset logs = mset (concat (map (contributed pf) files))
       \<and> (\<forall>f\<in>set files. contributed pf f = []
                          \<or> mset (contributed pf f) = mset (acceptedOf pf f))
       \<and> processFiles pf (contributing pf files) st = processFiles pf files st"
proof -
  have ok: "readable files" "contributing pf files \<noteq> []"
    and s: "array_sort (byTimestamp pf) (concat (map (contributed pf) (contributing pf files)))
              = Inr logs"
    and nm: "nm = nameFor (contributing pf files)"
    using published_cases [OF assms] by simp_all
  have m: "mset logs = mset (concat (map (contributed pf) files))"
    using mset_array_sort [OF s] by (simp only: concat_contributing)
  have idem: "contributing pf (contributing pf files) = contributing pf files"
    by (simp add: contributing_def)
  have r: "readable (contributing pf files)"
    using ok(1) by (simp add: readable_def contributing_def list_all_iff)
  have s': "array_sort (byTimestamp pf)
              (concat (map (contributed pf) (contributing pf (contributing pf files)))) = Inr logs"
    using s by (simp only: idem)
  have c': "contributing pf (contributing pf files) \<noteq> []"
    using ok(2) unfolding idem .
  have "processFiles pf (contributing pf files) st = processFiles pf files st"
    by (simp add: processFiles_some [OF ok s] processFiles_some [OF r c' s'] idem)
  then show ?thesis using nm m contributed_cases by blast
qed

text \<open>
  The theorem at three sources of which two contribute, at two sources of which one
  contributes, and at two sources with accepted lines of which one contributes nothing,
  because its parse throws.
\<close>

theorem dataset_name_witness:
  "\<not> app_hasData initialState
   \<and> dashboardProps (processFiles samplePlatform [fileDE, fileAB, fileAC] initialState)
       = Some ([recordB, recordA, recordA, recordC], ''2 Log Files Merged'')
   \<and> contributing samplePlatform [fileDE, fileAB, fileAC] = [fileAB, fileAC]
   \<and> ''2 Log Files Merged'' = nameFor [fileAB, fileAC]
   \<and> dashboardProps (processFiles samplePlatform [fileDE, fileAB] initialState)
       = Some ([recordB, recordA], ''agent.log'')
   \<and> ''agent.log'' = nameFor (contributing samplePlatform [fileDE, fileAB])
   \<and> dashboardProps (processFiles samplePlatform [fileXB, fileB] initialState)
       = Some ([recordB], ''b.log'')
   \<and> ''b.log'' = nameFor (contributing samplePlatform [fileXB, fileB])"
proof -
  have h1: "\<not> app_hasData initialState" by code_simp
  have h2: "dashboardProps (processFiles samplePlatform [fileDE, fileAB, fileAC] initialState)
       = Some ([recordB, recordA, recordA, recordC], ''2 Log Files Merged'')" by code_simp
  have h3: "dashboardProps (processFiles samplePlatform [fileDE, fileAB] initialState)
       = Some ([recordB, recordA], ''agent.log'')" by code_simp
  have h4: "dashboardProps (processFiles samplePlatform [fileXB, fileB] initialState)
       = Some ([recordB], ''b.log'')" by code_simp
  have c: "contributing samplePlatform [fileDE, fileAB, fileAC] = [fileAB, fileAC]" by code_simp
  show ?thesis
    using h1 h2 h3 h4 c dataset_name [OF h1 h2] dataset_name [OF h1 h3] dataset_name [OF h1 h4]
    by simp
qed

section \<open>Claims about the table\<close>




text \<open>
  Claim C4, as amended. The table is given the entries that pass the time range of the
  dashboard, which are all entries when no range is set. When their components and
  levels are strings, the choices of the two filters are the sorted distinct components
  and the sorted distinct levels of those entries, whatever the filter is: a filter never
  hides a choice, and a time range hides the choices that occur outside it only.
\<close>

theorem filter_choices:
  assumes "dashboardFilteredLogs pf logs timeRange = Inr shown"
    and "stringValued ''component'' shown"
    and "stringValued ''traceLevel'' shown"
  shows "uniqueComponents pf shown = Inr (sortedDistinct ''component'' shown)
       \<and> uniqueLevels pf shown = Inr (sortedDistinct ''traceLevel'' shown)
       \<and> (\<forall>view. dashboardTable pf logs timeRange filters = Inr view \<longrightarrow>
             componentChoices view = sortedDistinct ''component'' shown
             \<and> levelChoices view = sortedDistinct ''traceLevel'' shown)
       \<and> ((\<forall>e\<in>set shown. searchable e) \<or> search filters = [] \<longrightarrow>
             dashboardTable pf logs timeRange filters
               = Inr \<lparr>componentChoices = sortedDistinct ''component'' shown,
                      levelChoices = sortedDistinct ''traceLevel'' shown,
                      rows = filter (keeps filters) shown\<rparr>)
       \<and> (timeRange = None \<longrightarrow> shown = logs)
       \<and> (\<forall>r. timeRange = Some r \<longrightarrow>
             shown = filter (\<lambda>e. num_le (range_start r) (timeValue pf e)
                                  \<and> num_le (timeValue pf e) (range_end r)) logs)"
proof -
  have uc: "uniqueComponents pf shown = Inr (sortedDistinct ''component'' shown)"
    by (rule uniqueComponents_strings [OF assms(2)])
  have ul: "uniqueLevels pf shown = Inr (sortedDistinct ''traceLevel'' shown)"
    by (rule uniqueLevels_strings [OF assms(3)])
  have tbl: "dashboardTable pf logs timeRange filters
               = bindE (filteredLogs shown filters)
                   (\<lambda>rs. Inr \<lparr>componentChoices = sortedDistinct ''component'' shown,
                              levelChoices = sortedDistinct ''traceLevel'' shown,
                              rows = rs\<rparr>)"
    by (simp add: dashboardTable_def assms(1) logTable_def uc ul bindE_Inr)
  have view: "componentChoices view = sortedDistinct ''component'' shown
             \<and> levelChoices view = sortedDistinct ''traceLevel'' shown"
    if "dashboardTable pf logs timeRange filters = Inr view" for view
    using that unfolding tbl by (auto simp: bindE_Inr_iff)
  have total: "dashboardTable pf logs timeRange filters
               = Inr \<lparr>componentChoices = sortedDistinct ''component'' shown,
                      levelChoices = sortedDistinct ''traceLevel'' shown,
                      rows = filter (keeps filters) shown\<rparr>"
    if "(\<forall>e\<in>set shown. searchable e) \<or> search filters = []"
    unfolding tbl by (simp add: filteredLogs_keeps [OF that] bindE_Inr)
  show ?thesis using uc ul view total shown_entries [OF assms(1)] by blast
qed

text \<open>
  The theorem at the sample entries under the range of the last second: the one entry in
  the range gives the only choices.
\<close>

theorem filter_choices_witness:
  "dashboardFilteredLogs samplePlatform sampleLogs (Some lastSecond) = Inr [entry3]
   \<and> stringValued ''component'' [entry3] \<and> stringValued ''traceLevel'' [entry3]
   \<and> dashboardTable samplePlatform sampleLogs (Some lastSecond) noFilter
       = Inr \<lparr>componentChoices = [Some (JStr ''Runtime'')],
              levelChoices = [Some (JStr ''Critical'')], rows = [entry3]\<rparr>
   \<and> sortedDistinct ''component'' [entry3] = [Some (JStr ''Runtime'')]
   \<and> sortedDistinct ''traceLevel'' [entry3] = [Some (JStr ''Critical'')]"
proof -
  have a: "dashboardFilteredLogs samplePlatform sampleLogs (Some lastSecond) = Inr [entry3]"
    by code_simp
  have b: "stringValued ''component'' [entry3]" by code_simp
  have c: "stringValued ''traceLevel'' [entry3]" by code_simp
  have d: "dashboardTable samplePlatform sampleLogs (Some lastSecond) noFilter
       = Inr \<lparr>componentChoices = [Some (JStr ''Runtime'')],
              levelChoices = [Some (JStr ''Critical'')], rows = [entry3]\<rparr>"
    by code_simp
  show ?thesis
    using a b c d filter_choices [OF a b c, of noFilter] by simp
qed

text \<open>
  Claim C4 as stated fails. Under the range of the last second the choices are the
  component and the level of the third entry alone, not the sorted distinct values of
  the full dataset.
\<close>

theorem filter_choices_counterexample:
  "dashboardTable samplePlatform sampleLogs (Some lastSecond) noFilter
     = Inr \<lparr>componentChoices = [Some (JStr ''Runtime'')],
            levelChoices = [Some (JStr ''Critical'')], rows = [entry3]\<rparr>
   \<and> sortedDistinct ''component'' sampleLogs = [Some (JStr ''Agent''), Some (JStr ''Runtime'')]
   \<and> sortedDistinct ''traceLevel'' sampleLogs
       = [Some (JStr ''Critical''), Some (JStr ''Error''), Some (JStr ''Info'')]"
  by code_simp

section \<open>Claims about the timeline\<close>



text \<open>
  Claim C7, as amended. For a dataset that is not empty and in which the date of every
  entry can be constructed, the timeline is computed, and every entry is counted in
  exactly one bucket, the one whose start is the greatest multiple of the width at most
  the time value of the entry: the counts of the buckets add up to the number of
  entries, every bucket counts the entries that fall into it and holds at least one, and
  its error count is the number of those entries whose level is Error or Critical. The
  width is the one chosen from the first and the last entry.
\<close>

theorem bucket_coverage:
  assumes "logs \<noteq> []"
    and "\<forall>e\<in>set logs. constructs pf e"
  shows "\<exists>bs. volumeData pf logs = Inr bs
       \<and> durationMs pf logs = Inr (spanOf pf logs)
       \<and> sum_list (map count_b bs) = length logs
       \<and> (\<forall>e\<in>set logs.
            length (filter (\<lambda>b. timestamp b = bucketStartOf pf (widthOf pf logs) e) bs) = 1)
       \<and> (\<forall>e\<in>set logs. \<forall>t. timeValue pf e = Some t \<longrightarrow>
            (\<exists>k. bucketStartOf pf (widthOf pf logs) e = Some k \<and> widthOf pf logs dvd k
                 \<and> k \<le> t \<and> t < k + widthOf pf logs))
       \<and> (\<forall>b\<in>set bs.
            count_b b = length (entriesIn pf (widthOf pf logs) logs (timestamp b))
            \<and> 1 \<le> count_b b
            \<and> errors b = length (errorsIn pf (widthOf pf logs) logs (timestamp b)))"
proof -
  obtain bs where bs: "volumeData pf logs = Inr bs"
    using volumeData_constructs [OF assms] by blast
  have per_bucket:
    "count_b b = length (entriesIn pf (widthOf pf logs) logs (timestamp b))
     \<and> 1 \<le> count_b b
     \<and> errors b = length (errorsIn pf (widthOf pf logs) logs (timestamp b))"
    if "b \<in> set bs" for b
  proof -
    have b: "b = bucketFor pf (widthOf pf logs) logs (timestamp b)"
      and k: "timestamp b \<in> bucketStartOf pf (widthOf pf logs) ` set logs"
      using bucket_of_volumeData [OF bs assms(1) that] by simp_all
    have c: "count_b b = length (entriesIn pf (widthOf pf logs) logs (timestamp b))"
      by (subst b) (simp add: bucketFor_def)
    have e: "errors b = length (errorsIn pf (widthOf pf logs) logs (timestamp b))"
      by (subst b) (simp add: bucketFor_def)
    show ?thesis using c e entriesIn_nonempty [OF k] by simp
  qed
  have start: "\<forall>e\<in>set logs. \<forall>t. timeValue pf e = Some t \<longrightarrow>
            (\<exists>k. bucketStartOf pf (widthOf pf logs) e = Some k \<and> widthOf pf logs dvd k
                 \<and> k \<le> t \<and> t < k + widthOf pf logs)"
    using bucketStart_floor by blast
  show ?thesis
    using bs durationMs_constructs [OF assms] sum_counts_volumeData [OF bs assms(1)]
      one_bucket_per_entry [OF bs assms(1)] per_bucket start
    by blast
qed

text \<open>
  The theorem at the three sample entries: two buckets, of two entries and of one, with
  one error each.
\<close>

theorem bucket_coverage_witness:
  "sampleLogs \<noteq> []
   \<and> constructs samplePlatform entry1 \<and> constructs samplePlatform entry2
   \<and> constructs samplePlatform entry3
   \<and> volumeData samplePlatform sampleLogs = Inr [bucket1, bucket3]
   \<and> widthOf samplePlatform sampleLogs = 1000
   \<and> sum_list (map count_b [bucket1, bucket3]) = length sampleLogs
   \<and> count_b bucket1 = length (entriesIn samplePlatform 1000 sampleLogs (timestamp bucket1))
   \<and> errors bucket1 = length (errorsIn samplePlatform 1000 sampleLogs (timestamp bucket1))"
proof -
  have ne: "sampleLogs \<noteq> []" by (simp add: sampleLogs_def)
  have c1: "constructs samplePlatform entry1" by code_simp
  have c2: "constructs samplePlatform entry2" by code_simp
  have c3: "constructs samplePlatform entry3" by code_simp
  have cs: "\<forall>e\<in>set sampleLogs. constructs samplePlatform e"
    using c1 c2 c3 by (simp add: sampleLogs_def)
  have v: "volumeData samplePlatform sampleLogs = Inr [bucket1, bucket3]" by code_simp
  have w: "widthOf samplePlatform sampleLogs = 1000" by code_simp
  have "sum_list (map count_b [bucket1, bucket3]) = length sampleLogs
   \<and> count_b bucket1 = length (entriesIn samplePlatform 1000 sampleLogs (timestamp bucket1))
   \<and> errors bucket1 = length (errorsIn samplePlatform 1000 sampleLogs (timestamp bucket1))"
    using bucket_coverage [OF ne cs] unfolding v w by auto
  then show ?thesis using ne c1 c2 c3 v w by simp
qed

text \<open>
  Claim C7 as stated fails. The file of line X is published as a dataset of one entry.
  Its timestamp is an object for which the construction of a date throws, so the timeline
  is not computed, and the entry is counted in no bucket.
\<close>

theorem bucket_coverage_counterexample:
  "dashboardProps (processFiles samplePlatform [fileX] initialState)
     = Some ([recordX], ''x.log'')
   \<and> volumeData samplePlatform [recordX] = Inl TypeError"
  by code_simp

text \<open>
  Claim C10. In every bucket that the timeline emits the error count is at most the
  count. The timeline is emitted whenever the date of every entry can be constructed.
\<close>

theorem error_tally_bounded:
  "(\<forall>bs. volumeData pf logs = Inr bs \<longrightarrow>
      (\<forall>b\<in>set bs. 0 \<le> errors b \<and> errors b \<le> count_b b))
   \<and> ((\<forall>e\<in>set logs. constructs pf e) \<longrightarrow> (\<exists>bs. volumeData pf logs = Inr bs))"
proof -
  have bound: "\<forall>b\<in>set bs. 0 \<le> errors b \<and> errors b \<le> count_b b"
    if v: "volumeData pf logs = Inr bs" for bs
  proof (cases "logs = []")
    case True
    then show ?thesis using v by (simp add: volumeData_def)
  next
    case False
    show ?thesis
    proof
      fix b
      assume "b \<in> set bs"
      then have b: "b = bucketFor pf (widthOf pf logs) logs (timestamp b)"
        using bucket_of_volumeData [OF v False] by simp
      have "errors (bucketFor pf (widthOf pf logs) logs (timestamp b))
              \<le> count_b (bucketFor pf (widthOf pf logs) logs (timestamp b))"
        by (simp add: bucketFor_def errorsIn_def)
      then show "0 \<le> errors b \<and> errors b \<le> count_b b" using b by simp
    qed
  qed
  have total: "\<exists>bs. volumeData pf logs = Inr bs" if "\<forall>e\<in>set logs. constructs pf e"
  proof (cases "logs = []")
    case True
    then show ?thesis by (simp add: volumeData_def)
  next
    case False
    then show ?thesis using volumeData_constructs [OF False that] by blast
  qed
  show ?thesis using bound total by blast
qed

text \<open>The theorem at the three sample entries and their two buckets.\<close>

theorem error_tally_bounded_witness:
  "volumeData samplePlatform sampleLogs = Inr [bucket1, bucket3]
   \<and> errors bucket1 \<le> count_b bucket1 \<and> errors bucket3 \<le> count_b bucket3"
proof -
  have v: "volumeData samplePlatform sampleLogs = Inr [bucket1, bucket3]" by code_simp
  show ?thesis
    using v error_tally_bounded [of samplePlatform sampleLogs] by simp
qed

section \<open>Claims about the performance series\<close>

text \<open>
  Claim C8, as amended. The entries selected are those that carry metrics: their
  \<^verbatim>\<open>eventData.perfCounters\<close> is truthy, or their \<^verbatim>\<open>eventData.machineInfo\<close> has a
  \<^verbatim>\<open>physicalFreeMemoryMB\<close> or a \<^verbatim>\<open>cpuLoad\<close> that is not \<^verbatim>\<open>undefined\<close>. The stride is the
  least number that, taken 500 times, is at least the number of selected entries. If the
  date of every selected entry at an index the stride divides can be constructed, the
  series is computed: its points are the points of exactly those entries, in their
  order, the first selected entry among them; there are at most 500 points; the entries
  kept are a subsequence of the input, and the timestamps of the points a subsequence of
  the time values of the input.
\<close>

theorem downsampler:
  assumes "\<forall>e\<in>set (everyNth (step xs) (perfLogs xs)). constructs pf e"
  shows "\<exists>pts. perfData pf xs = Inr pts
       \<and> map Inr pts = map (metricPoint pf) (everyNth (step xs) (perfLogs xs))
       \<and> map point_timestamp pts = map (timeValue pf) (everyNth (step xs) (perfLogs xs))
       \<and> length pts \<le> 500
       \<and> subseq (everyNth (step xs) (perfLogs xs)) xs
       \<and> subseq (map point_timestamp pts) (map (timeValue pf) xs)
       \<and> perfLogs xs = filter carriesMetrics xs
       \<and> length (perfLogs xs) \<le> 500 * step xs
       \<and> (\<forall>n. length (perfLogs xs) \<le> 500 * n \<longrightarrow> step xs \<le> n)
       \<and> (perfLogs xs \<noteq> [] \<longrightarrow>
            0 < step xs \<and> pts \<noteq> [] \<and> Inr (hd pts) = metricPoint pf (hd (perfLogs xs)))"
proof -
  let ?kept = "everyNth (step xs) (perfLogs xs)"
  have "\<forall>e\<in>set ?kept. \<exists>p. metricPoint pf e = Inr p"
    using assms metricPoint_constructs by blast
  then obtain pts where pts: "mapE (metricPoint pf) ?kept = Inr pts"
    using mapE_total by blast
  then have m: "map (metricPoint pf) ?kept = map Inr pts"
    by (simp add: mapE_Inr_iff)
  have len: "length pts = length ?kept"
    using m by (metis length_map)
  have ts: "map point_timestamp pts = map (timeValue pf) ?kept"
    by (rule timestamps_of_points [OF m])
  have sub: "subseq ?kept xs"
  proof -
    have "subseq ?kept (perfLogs xs)" by (rule subseq_everyNth)
    moreover have "subseq (perfLogs xs) xs" by (simp add: perfLogs_def)
    ultimately show ?thesis by (rule subseq_order.order_trans)
  qed
  have subt: "subseq (map point_timestamp pts) (map (timeValue pf) xs)"
    unfolding ts using sub by (rule subseq_map)
  have least: "step xs \<le> n" if n: "length (perfLogs xs) \<le> 500 * n" for n
  proof -
    have "(of_nat (length (perfLogs xs)) :: rat) \<le> of_nat (500 * n)"
      using n by (simp only: of_nat_le_iff)
    then have "(of_nat (length (perfLogs xs)) :: rat) / 500 \<le> of_int (int n)"
      by simp
    then have "\<lceil>(of_nat (length (perfLogs xs)) :: rat) / 500\<rceil> \<le> int n"
      by (simp only: ceiling_le_iff)
    then show ?thesis by (simp add: step_def)
  qed
  have bound: "length pts \<le> 500"
  proof (cases "perfLogs xs = []")
    case True
    then show ?thesis using len by (simp add: everyNth_def)
  next
    case False
    have "length ?kept \<le> 500"
      by (rule length_everyNth_le [OF step_pos [OF False]])
         (simp add: step_bound)
    then show ?thesis using len by simp
  qed
  have first: "0 < step xs \<and> pts \<noteq> [] \<and> Inr (hd pts) = metricPoint pf (hd (perfLogs xs))"
    if ne: "perfLogs xs \<noteq> []"
  proof -
    have k: "?kept \<noteq> []" "hd ?kept = hd (perfLogs xs)"
      using everyNth_first [OF ne] by simp_all
    then have p: "pts \<noteq> []" using len by auto
    have "Inr (hd pts) = hd (map Inr pts)" using p by (simp add: hd_map)
    also have "\<dots> = hd (map (metricPoint pf) ?kept)" by (simp only: m)
    also have "\<dots> = metricPoint pf (hd ?kept)" using k(1) by (simp add: hd_map)
    finally show ?thesis using p k(2) step_pos [OF ne] by simp
  qed
  show ?thesis
    using pts m ts bound sub subt perfLogs_carries [of xs] step_bound [of xs] least first
    unfolding perfData_sampled by (metis (no_types, lifting))
qed

text \<open>
  The theorem at the three sample entries: the first and the third are selected, the
  stride is one, and both become points. And at 501 copies of the first entry: the
  stride is two, and the series has at most 500 points.
\<close>

theorem downsampler_witness:
  "everyNth (step sampleLogs) (perfLogs sampleLogs) = [entry1, entry3]
   \<and> constructs samplePlatform entry1 \<and> constructs samplePlatform entry3
   \<and> step sampleLogs = 1
   \<and> (\<exists>pts. perfData samplePlatform sampleLogs = Inr pts
         \<and> map Inr pts = map (metricPoint samplePlatform) [entry1, entry3]
         \<and> map point_timestamp pts = [Some 1704067201000, Some 1704067203000]
         \<and> length pts \<le> 500)
   \<and> perfLogs (replicate 501 entry1) = replicate 501 entry1
   \<and> step (replicate 501 entry1) = 2
   \<and> (\<exists>pts. perfData samplePlatform (replicate 501 entry1) = Inr pts
         \<and> length pts \<le> 500 \<and> pts \<noteq> [])"
proof -
  have k: "everyNth (step sampleLogs) (perfLogs sampleLogs) = [entry1, entry3]"
    by code_simp
  have c1: "constructs samplePlatform entry1" by code_simp
  have c3: "constructs samplePlatform entry3" by code_simp
  have s: "step sampleLogs = 1" by code_simp
  have t1: "timeValue samplePlatform entry1 = Some 1704067201000" by code_simp
  have t3: "timeValue samplePlatform entry3 = Some 1704067203000" by code_simp
  have h: "\<forall>e\<in>set (everyNth (step sampleLogs) (perfLogs sampleLogs)).
             constructs samplePlatform e"
    using c1 c3 by (simp add: k)
  have small: "\<exists>pts. perfData samplePlatform sampleLogs = Inr pts
         \<and> map Inr pts = map (metricPoint samplePlatform) [entry1, entry3]
         \<and> map point_timestamp pts = [Some 1704067201000, Some 1704067203000]
         \<and> length pts \<le> 500"
    using downsampler [OF h] k t1 t3 by auto
  have hm: "hasMetrics entry1" by code_simp
  have pl: "perfLogs (replicate 501 entry1) = replicate 501 entry1"
    using hm by (simp add: perfLogs_def)
  have s2: "step (replicate 501 entry1) = 2"
  proof -
    have "\<lceil>(501::rat) / 500\<rceil> = 2" by (rule ceiling_unique) simp_all
    then show ?thesis unfolding step_def pl by simp
  qed
  have "set (everyNth n (replicate 501 entry1)) \<subseteq> {entry1}" for n
    by (auto simp: everyNth_def)
  then have h2: "\<forall>e\<in>set (everyNth (step (replicate 501 entry1))
                             (perfLogs (replicate 501 entry1))).
             constructs samplePlatform e"
    using c1 unfolding pl by blast
  have ne: "perfLogs (replicate 501 entry1) \<noteq> []" unfolding pl by simp
  have large: "\<exists>pts. perfData samplePlatform (replicate 501 entry1) = Inr pts
         \<and> length pts \<le> 500 \<and> pts \<noteq> []"
    using downsampler [OF h2] ne by blast
  show ?thesis using k c1 c3 s small pl s2 large by simp
qed

text \<open>
  Claim C8 as stated fails. The file of line X is published as a dataset of one entry,
  which carries performance counters and is selected. Its timestamp is an object for
  which the construction of a date throws, so the series is not computed and no entry
  is kept.
\<close>

theorem downsampler_counterexample:
  "dashboardProps (processFiles samplePlatform [fileX] initialState)
     = Some ([recordX], ''x.log'')
   \<and> dashboardFilteredLogs samplePlatform [recordX] None = Inr [recordX]
   \<and> perfLogs [recordX] = [recordX]
   \<and> perfData samplePlatform [recordX] = Inl TypeError"
  by code_simp

end
